theory Spec2Isabelle
  imports Main
begin

unbundle bit_operations_syntax

section \<open>Python dictionaries\<close>

text \<open>
  A Python \<open>dict\<close> keeps its keys in insertion order; assigning to a key that is already
  present replaces the value where the key stands, assigning to a new key appends it.
  Dictionaries are association lists read with \<open>map_of\<close> and written with \<open>dict_set\<close>.
  Python's unbounded integers are \<open>int\<close>; bit offsets and widths of the catalogue,
  which are never negative, are \<open>nat\<close>.
\<close>

type_synonym ('k, 'v) dict = "('k \<times> 'v) list"

fun dict_set :: "('k, 'v) dict \<Rightarrow> 'k \<Rightarrow> 'v \<Rightarrow> ('k, 'v) dict" where
  "dict_set [] k v = [(k, v)]"
| "dict_set ((k', v') # d) k v = (if k' = k then (k, v) # d else (k', v') # dict_set d k v)"

definition dict_has :: "('k, 'v) dict \<Rightarrow> 'k \<Rightarrow> bool" where
  "dict_has d k = (map_of d k \<noteq> None)"

definition dict_of_pairs :: "('k \<times> 'v) list \<Rightarrow> ('k, 'v) dict" where
  "dict_of_pairs ps = fold (\<lambda>(k, v) d. dict_set d k v) ps []"

section \<open>The opcode catalogue\<close>

record descriptor =
  spec_name :: string
  spec_base :: int
  spec_mask :: int
  spec_form :: string
  spec_fields :: "(string, nat \<times> nat) dict"

text \<open>The entries of \<open>ISA_GROUPS\<close> that the development evaluates.\<close>

definition reg_fields :: "(string, nat \<times> nat) dict" where
  "reg_fields = [(''Rd'', (0, 5)), (''Rn'', (5, 5)), (''Rm'', (16, 5)),
                 (''imm6'', (10, 6)), (''shift'', (22, 2)), (''sf'', (31, 1))]"

definition ADD_spec :: descriptor where
  "ADD_spec = \<lparr>spec_name = ''ADD'', spec_base = 0x0B000000, spec_mask = 0x7FE00000,
               spec_form = ''register'', spec_fields = reg_fields\<rparr>"

definition ORR_spec :: descriptor where
  "ORR_spec = \<lparr>spec_name = ''ORR'', spec_base = 0x2A000000, spec_mask = 0x7FE00000,
               spec_form = ''register'', spec_fields = reg_fields\<rparr>"

definition NOP_spec :: descriptor where
  "NOP_spec = \<lparr>spec_name = ''NOP'', spec_base = 0xD503201F, spec_mask = 0xFFFFFFFF,
               spec_form = ''hint'', spec_fields = []\<rparr>"

section \<open>Bit classification (\<open>colorize_bits\<close>)\<close>

datatype bit_class = MATCH | LEGAL_VARIATION | VIOLATION

text \<open>
  One iteration of the loop of \<open>colorize_bits\<close>: \<open>vbit\<close>, \<open>bbit\<close> and \<open>fixed\<close> are
  \<open>(val >> i) & 1\<close>, \<open>(base >> i) & 1\<close> and \<open>(mask >> i) & 1\<close>. The red branch is
  \<open>VIOLATION\<close>, the yellow one \<open>LEGAL_VARIATION\<close>, the plain one \<open>MATCH\<close>.
\<close>

definition classify_bit :: "int \<Rightarrow> int \<Rightarrow> int \<Rightarrow> nat \<Rightarrow> bit_class" where
  "classify_bit base msk val i =
     (let vbit = drop_bit i val AND 1;
          bbit = drop_bit i base AND 1;
          fixed = drop_bit i msk AND 1
      in if fixed \<noteq> 0 \<and> vbit \<noteq> bbit then VIOLATION
         else if fixed = 0 \<and> vbit \<noteq> bbit then LEGAL_VARIATION
         else MATCH)"

definition str_bit :: "int \<Rightarrow> string" where
  "str_bit vbit = (if vbit = 0 then ''0'' else ''1'')"

definition render_bit :: "bit_class \<Rightarrow> int \<Rightarrow> string" where
  "render_bit c vbit =
     (case c of
        VIOLATION \<Rightarrow> CHR 0x1B # ''[1;31m'' @ str_bit vbit @ CHR 0x1B # ''[0m''
      | LEGAL_VARIATION \<Rightarrow> CHR 0x1B # ''[1;33m'' @ str_bit vbit @ CHR 0x1B # ''[0m''
      | MATCH \<Rightarrow> str_bit vbit)"

definition colorize_bits :: "int \<Rightarrow> int \<Rightarrow> int \<Rightarrow> string" where
  "colorize_bits base msk val =
     concat (map (\<lambda>i. render_bit (classify_bit base msk val i) (drop_bit i val AND 1))
                 (rev [0..<32]))"

section \<open>Assembling a value from field values and locks\<close>

text \<open>
  The two statements \<open>val &= ~(mask << start)\<close> and \<open>val |= (value & mask) << start\<close>
  with \<open>mask = (1 << width) - 1\<close>, which \<open>assemble_value\<close> runs for a varied field and
  again for a locked one.
\<close>

definition write_window :: "int \<Rightarrow> nat \<Rightarrow> nat \<Rightarrow> int \<Rightarrow> int" where
  "write_window val start width value =
     (let m = push_bit width 1 - 1
      in (val AND NOT (push_bit start m)) OR push_bit start (value AND m))"

datatype event =
    Warning_lock_range string int nat
  | Warning_lock_width string int
  | Warning_invalid_vary "string list"
  | Warning_no_valid_vary
  | No_valid_fields
  | Value_line int
  | No_variations

fun apply_combo :: "(string, nat \<times> nat) dict \<Rightarrow> (string, int) dict \<Rightarrow> int \<Rightarrow> int" where
  "apply_combo flds [] val = val"
| "apply_combo flds ((fname, value) # rest) val =
     (case map_of flds fname of
        None \<Rightarrow> apply_combo flds rest val
      | Some (start, width) \<Rightarrow> apply_combo flds rest (write_window val start width value))"

fun apply_locks ::
  "(string, nat \<times> nat) dict \<Rightarrow> (string, int) dict \<Rightarrow> (string, int) dict \<Rightarrow>
   event list \<times> int \<Rightarrow> event list \<times> int" where
  "apply_locks [] combo_map locks (out, val) = (out, val)"
| "apply_locks ((fname, (start, width)) # rest) combo_map locks (out, val) =
     (if \<not> dict_has combo_map fname \<and> dict_has locks fname then
        (let lock_val = the (map_of locks fname);
             out' = (if lock_val \<ge> push_bit width 1
                     then out @ [Warning_lock_width fname lock_val] else out)
         in apply_locks rest combo_map locks (out', write_window val start width lock_val))
      else apply_locks rest combo_map locks (out, val))"

definition assemble_value ::
  "descriptor \<Rightarrow> (string, int) dict \<Rightarrow> (string, int) dict \<Rightarrow> event list \<times> int" where
  "assemble_value spec combo_map locks =
     apply_locks (spec_fields spec) combo_map locks
       ([], apply_combo (spec_fields spec) combo_map (spec_base spec))"

section \<open>The field-space enumerator\<close>

datatype py_error = ValueError | OverflowError

text \<open>
  \<open>range(0, stop, step)\<close>: a zero step raises \<open>ValueError\<close>, a negative one gives
  the empty range.
\<close>

definition py_range :: "int \<Rightarrow> int \<Rightarrow> py_error + int list" where
  "py_range stop step =
     (if step = 0 then Inl ValueError
      else if step < 0 \<or> stop \<le> 0 then Inr []
      else Inr (map (\<lambda>k. int k * step) [0..<nat ((stop + step - 1) div step)]))"

text \<open>
  The first loop of \<open>iterate_field_space\<close>, over \<open>vary_fields\<close>, with the printed
  warnings, \<open>domains\<close> and \<open>order\<close> as the loop state.
\<close>

fun build_domains ::
  "(string, nat \<times> nat) dict \<Rightarrow> string list \<Rightarrow> (string, int) dict \<Rightarrow> int \<Rightarrow>
   event list \<times> int list list \<times> string list \<Rightarrow>
   event list \<times> (py_error + int list list \<times> string list)" where
  "build_domains flds [] locks step (out, domains, order) = (out, Inr (domains, order))"
| "build_domains flds (fname # rest) locks step (out, domains, order) =
     (case map_of flds fname of
        None \<Rightarrow> build_domains flds rest locks step (out, domains, order)
      | Some (start, width) \<Rightarrow>
          (let max_val = push_bit width 1 in
           if dict_has locks fname then
             (let locked_val = the (map_of locks fname);
                  out' = (if locked_val \<ge> max_val
                          then out @ [Warning_lock_range fname locked_val width] else out)
              in build_domains flds rest locks step
                   (out', domains @ [[locked_val AND (max_val - 1)]], order @ [fname]))
           else
             (let small = (width \<le> 2);
                  stride = (if small then 1 else step);
                  actual_step = (if max_val > 0 then min stride max_val else 1)
              in case py_range max_val actual_step of
                   Inl e \<Rightarrow> (out, Inl e)
                 | Inr domain \<Rightarrow>
                     build_domains flds rest locks step
                       (out, domains @ [domain], order @ [fname]))))"

text \<open>
  The generator \<open>iterate_field_space\<close>: what it prints, and either the exception it
  raises or the dictionaries it yields, in order. \<open>product_lists\<close> enumerates as
  \<open>itertools.product\<close> does, the last domain running fastest.
\<close>

definition iterate_field_space ::
  "(string, nat \<times> nat) dict \<Rightarrow> string list \<Rightarrow> (string, int) dict \<Rightarrow> int \<Rightarrow>
   event list \<times> (py_error + (string, int) dict list)" where
  "iterate_field_space flds vary_fields locks step =
     (case build_domains flds vary_fields locks step ([], [], []) of
        (out, Inl e) \<Rightarrow> (out, Inl e)
      | (out, Inr (domains, order)) \<Rightarrow>
          if vary_fields = [] \<and> locks \<noteq> [] then (out, Inr [[]])
          else if domains = [] \<and> vary_fields \<noteq> [] then (out @ [No_valid_fields], Inr [])
          else if domains = [] \<and> vary_fields = [] \<and> flds \<noteq> [] then (out, Inr [[]])
          else (out, Inr (map (\<lambda>combo. dict_of_pairs (zip order combo))
                              (product_lists domains))))"

text \<open>
  \<open>disassemble_word\<close> starts with \<open>value.to_bytes(4, "little")\<close>, which raises
  \<open>OverflowError\<close> unless the value is an unsigned 32-bit number. What the external
  decoder and the emulator add to a printed line is left out of \<open>Value_line\<close>.
\<close>

definition fits_u32 :: "int \<Rightarrow> bool" where
  "fits_u32 val = (0 \<le> val \<and> val < 2 ^ 32)"

text \<open>
  The \<open>for\<close> loop of \<open>explore_opcode\<close> over the yielded dictionaries: the printed
  events, the exception that ended the loop (if one did) and the final \<open>count\<close>.
\<close>

fun explore_loop ::
  "descriptor \<Rightarrow> (string, int) dict \<Rightarrow> int \<Rightarrow> (string, int) dict list \<Rightarrow> int \<Rightarrow>
   event list \<times> py_error option \<times> int" where
  "explore_loop spec locks limit [] count = ([], None, count)"
| "explore_loop spec locks limit (combo_map # rest) count =
     (case assemble_value spec combo_map locks of
        (warnings, val) \<Rightarrow>
          if \<not> fits_u32 val then (warnings, Some OverflowError, count)
          else if count + 1 \<ge> limit then (warnings @ [Value_line val], None, count + 1)
          else (case explore_loop spec locks limit rest (count + 1) of
                  (out, err, count') \<Rightarrow> (warnings @ Value_line val # out, err, count')))"

text \<open>
  \<open>explore_opcode\<close>, first part: the \<open>if not vary_fields: ... else: ...\<close> statement
  that settles the fields to vary and may replace the caller's limit by 1. The result
  is \<open>vary_fields\<close> and \<open>limit\<close> as the rest of the function sees them, and the warnings.
\<close>

definition explore_vary ::
  "descriptor \<Rightarrow> int \<Rightarrow> string list \<Rightarrow> string list \<times> int \<times> event list" where
  "explore_vary spec limit vary_fields =
     (let flds = spec_fields spec
      in if vary_fields = [] then (map fst flds, limit, [])
         else
           (let valid_vary_fields = filter (dict_has flds) vary_fields;
                out1 = (if length valid_vary_fields \<noteq> length vary_fields
                        then [Warning_invalid_vary
                                (remdups (filter (\<lambda>f. f \<notin> set valid_vary_fields)
                                           vary_fields))]
                        else [])
            in if valid_vary_fields = [] \<and> flds \<noteq> []
               then (valid_vary_fields, 1, out1 @ [Warning_no_valid_vary])
               else (valid_vary_fields, limit, out1)))"

text \<open>
  \<open>explore_opcode\<close>, as a whole: what it prints (the header, which depends on the
  descriptor alone, left out) and the exception that ends it, if one does.
\<close>

definition explore_opcode ::
  "descriptor \<Rightarrow> int \<Rightarrow> int \<Rightarrow> string list \<Rightarrow> (string, int) dict \<Rightarrow>
   event list \<times> py_error option" where
  "explore_opcode spec limit0 step vary_fields0 locks =
     (case explore_vary spec limit0 vary_fields0 of
        (vary_fields, limit, out0) \<Rightarrow>
          (let flds = spec_fields spec;
               base = spec_base spec
           in if flds = [] then
                (if fits_u32 base then (out0 @ [Value_line base], None)
                 else (out0, Some OverflowError))
              else if vary_fields = [] \<and> limit > 0 then
                (case assemble_value spec [] locks of
                   (warnings, val) \<Rightarrow>
                     if fits_u32 val then (out0 @ warnings @ [Value_line val], None)
                     else (out0 @ warnings, Some OverflowError))
              else
                (case iterate_field_space flds vary_fields locks step of
                   (out1, Inl e) \<Rightarrow> (out0 @ out1, Some e)
                 | (out1, Inr combos) \<Rightarrow>
                     (case explore_loop spec locks limit combos 0 of
                        (out2, err, count) \<Rightarrow>
                          (out0 @ out1 @ out2 @
                             (if err = None \<and> count = 0 \<and> limit > 0 \<and> flds \<noteq> []
                              then [No_variations] else []),
                           err)))))"

text \<open>The assembled values that an exploration printed, in order.\<close>

fun printed_values :: "event list \<Rightarrow> int list" where
  "printed_values [] = []"
| "printed_values (Value_line v # out) = v # printed_values out"
| "printed_values (_ # out) = printed_values out"

section \<open>Alias resolution\<close>

text \<open>
  Texts are ASCII: \<open>upper\<close> maps the 26 small letters and leaves every other character
  as it is; the white space of \<open>str.strip\<close> and of \<open>\s\<close> is the ASCII white space
  (tab to carriage return, the four separators \<open>0x1C\<close> to \<open>0x1F\<close>, blank).
\<close>

definition upper_char :: "char \<Rightarrow> char" where
  "upper_char c =
     (case map_of (zip ''abcdefghijklmnopqrstuvwxyz'' ''ABCDEFGHIJKLMNOPQRSTUVWXYZ'') c of
        Some u \<Rightarrow> u
      | None \<Rightarrow> c)"

definition upper :: "string \<Rightarrow> string" where
  "upper s = map upper_char s"

definition INSTRUCTION_ALIASES :: "(string, string \<times> (string, int) dict) dict" where
  "INSTRUCTION_ALIASES =
     [(''CMP'', (''SUBS'', [(''Rd'', 31)])),
      (''CMN'', (''ADDS'', [(''Rd'', 31)])),
      (''TST'', (''ANDS'', [(''Rd'', 31)]))]"

text \<open>
  The loop \<open>for field, value in alias_spec['locked_fields'].items():
  if field not in locks: locks[field] = value\<close> of \<open>main\<close>.
\<close>

definition merge_alias_locks :: "(string, int) dict \<Rightarrow> (string, int) dict \<Rightarrow> (string, int) dict" where
  "merge_alias_locks locks locked_fields =
     fold (\<lambda>(field, value) l. if \<not> dict_has l field then dict_set l field value else l)
          locked_fields locks"

text \<open>
  The alias step of \<open>main\<close> on the positional opcode and the parsed locks: the
  opcode that is then looked up in \<open>OPCODE_MAP\<close>, and the locks passed on.
\<close>

definition resolve_alias :: "string \<Rightarrow> (string, int) dict \<Rightarrow> string \<times> (string, int) dict" where
  "resolve_alias opcode locks =
     (let opname = upper opcode
      in case map_of INSTRUCTION_ALIASES opname of
           Some (base_op, locked_fields) \<Rightarrow> (base_op, merge_alias_locks locks locked_fields)
         | None \<Rightarrow> (opname, locks))"

section \<open>Strings and integer literals\<close>

definition is_space :: "char \<Rightarrow> bool" where
  "is_space c \<longleftrightarrow>
     c \<in> set [CHR 0x09, CHR 0x0A, CHR 0x0B, CHR 0x0C, CHR 0x0D,
              CHR 0x1C, CHR 0x1D, CHR 0x1E, CHR 0x1F, CHR 0x20]"

definition strip :: "string \<Rightarrow> string" where
  "strip s = rev (dropWhile is_space (rev (dropWhile is_space s)))"

definition startswith :: "string \<Rightarrow> string \<Rightarrow> bool" where
  "startswith s p = (take (length p) s = p)"

text \<open>\<open>s.split(c)\<close>: always at least one part.\<close>

fun split_on :: "char \<Rightarrow> string \<Rightarrow> string list" where
  "split_on c [] = [[]]"
| "split_on c (x # xs) =
     (if x = c then [] # split_on c xs
      else (case split_on c xs of p # ps \<Rightarrow> (x # p) # ps | [] \<Rightarrow> [[x]]))"

text \<open>
  The digits that can be below a base of at most 16; any other character ends a number.
\<close>

definition digit_value :: "char \<Rightarrow> nat option" where
  "digit_value c =
     map_of
       [(CHR ''0'', 0), (CHR ''1'', 1), (CHR ''2'', 2), (CHR ''3'', 3), (CHR ''4'', 4),
        (CHR ''5'', 5), (CHR ''6'', 6), (CHR ''7'', 7), (CHR ''8'', 8), (CHR ''9'', 9),
        (CHR ''a'', 10), (CHR ''b'', 11), (CHR ''c'', 12), (CHR ''d'', 13), (CHR ''e'', 14),
        (CHR ''f'', 15), (CHR ''A'', 10), (CHR ''B'', 11), (CHR ''C'', 12), (CHR ''D'', 13),
        (CHR ''E'', 14), (CHR ''F'', 15)] c"

text \<open>
  The digit scan of \<open>int\<close>: digits below the base, single underscores between them;
  a doubled or a trailing underscore is a syntax error. The result is the value and
  the unread rest.
\<close>

fun scan_digits :: "nat \<Rightarrow> string \<Rightarrow> char \<Rightarrow> nat \<Rightarrow> (nat \<times> string) option" where
  "scan_digits b [] prev acc = (if prev = CHR ''_'' then None else Some (acc, []))"
| "scan_digits b (c # cs) prev acc =
     (if c = CHR ''_'' then
        (if prev = CHR ''_'' then None else scan_digits b cs c acc)
      else
        (case digit_value c of
           Some d \<Rightarrow>
             if d < b then scan_digits b cs c (acc * b + d)
             else if prev = CHR ''_'' then None else Some (acc, c # cs)
         | None \<Rightarrow> if prev = CHR ''_'' then None else Some (acc, c # cs)))"

text \<open>
  \<open>int(s, base)\<close> for \<open>base\<close> 0 (the base is read from the prefix, and a decimal
  number with a leading zero must be zero) and for \<open>base\<close> 10; \<open>None\<close> is
  \<open>ValueError\<close>. Around the number \<open>int\<close> skips the white space of C (tab to
  carriage return, and blank), not the four separators that \<open>str.strip\<close> also removes.
  The limit that recent interpreters put on the number of decimal digits is not modelled.
\<close>

definition is_c_space :: "char \<Rightarrow> bool" where
  "is_c_space c \<longleftrightarrow>
     c \<in> set [CHR 0x09, CHR 0x0A, CHR 0x0B, CHR 0x0C, CHR 0x0D, CHR 0x20]"

definition py_int :: "nat \<Rightarrow> string \<Rightarrow> int option" where
  "py_int base0 s =
     (let s1 = dropWhile is_c_space s;
          (neg, s2) = (case s1 of
                         [] \<Rightarrow> (False, s1)
                       | c # r \<Rightarrow> if c = CHR ''+'' then (False, r)
                                  else if c = CHR ''-'' then (True, r) else (False, s1));
          c0 = take 1 s2;
          c1 = take 1 (drop 1 s2);
          (base, error_if_nonzero) =
            (if base0 = 0 then
               (if c0 \<noteq> ''0'' then (10, False)
                else if c1 = ''x'' \<or> c1 = ''X'' then (16, False)
                else if c1 = ''o'' \<or> c1 = ''O'' then (8, False)
                else if c1 = ''b'' \<or> c1 = ''B'' then (2, False)
                else (10, True))
             else (base0, False));
          s3 = (if c0 = ''0'' \<and> (base = 16 \<and> (c1 = ''x'' \<or> c1 = ''X'') \<or>
                                   base = 8 \<and> (c1 = ''o'' \<or> c1 = ''O'') \<or>
                                   base = 2 \<and> (c1 = ''b'' \<or> c1 = ''B''))
                then (if take 1 (drop 2 s2) = ''_'' then drop 3 s2 else drop 2 s2)
                else s2)
      in if take 1 s3 = ''_'' then None
         else (case scan_digits base s3 (CHR 0x00) 0 of
                 None \<Rightarrow> None
               | Some (v, rest) \<Rightarrow>
                   if error_if_nonzero \<and> v \<noteq> 0 then None
                   else if length rest = length s3 then None
                   else if dropWhile is_c_space rest \<noteq> [] then None
                   else Some (if neg then - int v else int v)))"

text \<open>\<open>format(n, '#x')\<close>: a sign, \<open>0x\<close> and the small hexadecimal digits.\<close>

function hex_digits :: "nat \<Rightarrow> string" where
  "hex_digits n =
     (if n < 16 then [''0123456789abcdef'' ! n]
      else hex_digits (n div 16) @ [''0123456789abcdef'' ! (n mod 16)])"
  by pat_completeness auto
termination
  by (relation "measure id") auto

definition fmt_hex :: "int \<Rightarrow> string" where
  "fmt_hex n = (if n < 0 then ''-0x'' @ hex_digits (nat (- n)) else ''0x'' @ hex_digits (nat n))"

section \<open>The emulator\<close>

record emulator =
  regs :: "string \<rightharpoonup> int"
  flags :: "string \<rightharpoonup> int"

text \<open>\<open>str(i)\<close> for the register numbers of \<open>__init__\<close>.\<close>

definition str_nat :: "nat \<Rightarrow> string" where
  "str_nat i = (if i < 10 then [''0123456789'' ! i]
                else [''0123456789'' ! (i div 10), ''0123456789'' ! (i mod 10)])"

definition Emulator_init :: emulator where
  "Emulator_init =
     \<lparr>regs = map_of (map (\<lambda>i. (''X'' @ str_nat i, 0)) [0..<31] @ [(''SP'', 0)]),
      flags = map_of [(''N'', 0), (''Z'', 0), (''C'', 0), (''V'', 0)]\<rparr>"

text \<open>\<open>self.regs.get(key, 0)\<close>.\<close>

definition regs_get :: "emulator \<Rightarrow> string \<Rightarrow> int" where
  "regs_get e key = (case regs e key of Some v \<Rightarrow> v | None \<Rightarrow> 0)"

definition get_reg :: "emulator \<Rightarrow> string \<Rightarrow> int" where
  "get_reg e reg_name0 =
     (let reg_name = upper reg_name0
      in if reg_name = ''XZR'' then 0
         else if reg_name = ''WZR'' then 0
         else if startswith reg_name ''X'' then regs_get e reg_name
         else if startswith reg_name ''W'' then
           (let reg_num = drop 1 reg_name; x_reg = ''X'' @ reg_num
            in regs_get e x_reg AND 0xFFFFFFFF)
         else if reg_name = ''SP'' then regs_get e ''SP''
         else 0)"

definition set_reg :: "emulator \<Rightarrow> string \<Rightarrow> int \<Rightarrow> emulator" where
  "set_reg e reg_name0 value0 =
     (let reg_name = upper reg_name0;
          value = value0 AND 0xFFFFFFFFFFFFFFFF
      in if reg_name = ''XZR'' \<or> reg_name = ''WZR'' then e
         else if startswith reg_name ''X'' then e\<lparr>regs := (regs e)(reg_name \<mapsto> value)\<rparr>
         else if startswith reg_name ''W'' then
           (let reg_num = drop 1 reg_name; x_reg = ''X'' @ reg_num
            in e\<lparr>regs := (regs e)(x_reg \<mapsto> value AND 0xFFFFFFFF)\<rparr>)
         else if reg_name = ''SP'' then e\<lparr>regs := (regs e)(''SP'' \<mapsto> value)\<rparr>
         else e)"

text \<open>
  The branches of \<open>execute\<close>. Each unpacks the operand parts (a wrong number of parts
  raises \<open>ValueError\<close>), reads, computes, writes the destination and builds the
  narrative. The two arithmetic shapes are written once for \<open>ADD\<close> and \<open>SUB\<close>, the
  logical shape once for \<open>AND\<close>, \<open>ORR\<close> and \<open>EOR\<close>: \<open>f\<close> is the operator and
  \<open>opsym\<close> its sign in the narrative. Arithmetic results are masked before the write,
  logical ones only by \<open>set_reg\<close>.
\<close>

definition exec_arith_imm ::
  "emulator \<Rightarrow> (int \<Rightarrow> int \<Rightarrow> int) \<Rightarrow> string \<Rightarrow> string list \<Rightarrow> py_error + emulator \<times> string" where
  "exec_arith_imm e f opsym op_str_parts =
     (case op_str_parts of
        [rd, rn, imm_str] \<Rightarrow>
          (case py_int 0 (filter (\<lambda>c. c \<noteq> CHR ''#'') imm_str) of
             None \<Rightarrow> Inl ValueError
           | Some imm_val \<Rightarrow>
               (let rn_val = get_reg e rn;
                    result = f rn_val imm_val AND 0xFFFFFFFFFFFFFFFF
                in Inr (set_reg e rd result,
                        ''; '' @ rd @ '' = '' @ rn @ '' '' @ opsym @ '' '' @ imm_str @ '' = '' @
                        fmt_hex rn_val @ '' '' @ opsym @ '' '' @ fmt_hex imm_val @ '' = '' @
                        fmt_hex result)))
      | _ \<Rightarrow> Inl ValueError)"

definition exec_arith_reg ::
  "emulator \<Rightarrow> (int \<Rightarrow> int \<Rightarrow> int) \<Rightarrow> string \<Rightarrow> string list \<Rightarrow> py_error + emulator \<times> string" where
  "exec_arith_reg e f opsym op_str_parts =
     (case op_str_parts of
        [rd, rn, rm] \<Rightarrow>
          (let rn_val = get_reg e rn;
               rm_val = get_reg e rm;
               result = f rn_val rm_val AND 0xFFFFFFFFFFFFFFFF
           in Inr (set_reg e rd result,
                   ''; '' @ rd @ '' = '' @ rn @ '' '' @ opsym @ '' '' @ rm @ '' = '' @
                   fmt_hex rn_val @ '' '' @ opsym @ '' '' @ fmt_hex rm_val @ '' = '' @
                   fmt_hex result))
      | _ \<Rightarrow> Inl ValueError)"

definition exec_mov_imm :: "emulator \<Rightarrow> string list \<Rightarrow> py_error + emulator \<times> string" where
  "exec_mov_imm e op_str_parts =
     (case op_str_parts of
        [rd, imm_str] \<Rightarrow>
          (case py_int 0 (filter (\<lambda>c. c \<noteq> CHR ''#'') imm_str) of
             None \<Rightarrow> Inl ValueError
           | Some imm_val \<Rightarrow>
               if 0 \<le> imm_val \<and> imm_val \<le> 0xFFFF
               then Inr (set_reg e rd imm_val, ''; '' @ rd @ '' = '' @ fmt_hex imm_val)
               else Inr (e, ''; '' @ rd @ '' = '' @ fmt_hex imm_val @ '' (complex immediate)''))
      | _ \<Rightarrow> Inl ValueError)"

definition exec_mov_reg :: "emulator \<Rightarrow> string list \<Rightarrow> py_error + emulator \<times> string" where
  "exec_mov_reg e op_str_parts =
     (case op_str_parts of
        [rd, rn] \<Rightarrow>
          (let rn_val = get_reg e rn
           in Inr (set_reg e rd rn_val, ''; '' @ rd @ '' = '' @ rn @ '' = '' @ fmt_hex rn_val))
      | _ \<Rightarrow> Inl ValueError)"

definition exec_logic_reg ::
  "emulator \<Rightarrow> (int \<Rightarrow> int \<Rightarrow> int) \<Rightarrow> string \<Rightarrow> string list \<Rightarrow> py_error + emulator \<times> string" where
  "exec_logic_reg e f opsym op_str_parts =
     (case op_str_parts of
        [rd, rn, rm] \<Rightarrow>
          (let rn_val = get_reg e rn;
               rm_val = get_reg e rm;
               result = f rn_val rm_val
           in Inr (set_reg e rd result,
                   ''; '' @ rd @ '' = '' @ rn @ '' '' @ opsym @ '' '' @ rm @ '' = '' @
                   fmt_hex rn_val @ '' '' @ opsym @ '' '' @ fmt_hex rm_val @ '' = '' @
                   fmt_hex result))
      | _ \<Rightarrow> Inl ValueError)"

text \<open>
  The body of the \<open>try\<close> block of \<open>execute\<close>: \<open>Inl\<close> is an exception raised in it,
  \<open>Inr\<close> the register file and \<open>result_str\<close> at its end.
\<close>

definition execute_try :: "emulator \<Rightarrow> string \<Rightarrow> string \<Rightarrow> py_error + emulator \<times> string" where
  "execute_try e mnemonic0 op_str =
     (let mnemonic = upper mnemonic0;
          op_str_parts = map strip (split_on CHR '','' op_str);
          hash = (CHR ''#'' \<in> set op_str)
      in if mnemonic = ''ADD'' \<and> hash then exec_arith_imm e (+) ''+'' op_str_parts
         else if mnemonic = ''ADD'' \<and> length op_str_parts = 3
           then exec_arith_reg e (+) ''+'' op_str_parts
         else if mnemonic = ''SUB'' \<and> hash then exec_arith_imm e (-) ''-'' op_str_parts
         else if mnemonic = ''SUB'' \<and> length op_str_parts = 3
           then exec_arith_reg e (-) ''-'' op_str_parts
         else if mnemonic = ''MOV'' \<and> hash then exec_mov_imm e op_str_parts
         else if mnemonic = ''MOV'' \<and> length op_str_parts = 2 then exec_mov_reg e op_str_parts
         else if mnemonic = ''AND'' \<and> \<not> hash then exec_logic_reg e (AND) ''&'' op_str_parts
         else if mnemonic = ''ORR'' \<and> \<not> hash then exec_logic_reg e (OR) ''|'' op_str_parts
         else if mnemonic = ''EOR'' \<and> \<not> hash then exec_logic_reg e (XOR) ''^'' op_str_parts
         else Inr (e, ''''))"

text \<open>
  \<open>execute\<close>: the \<open>except Exception\<close> clause turns every exception of the body into
  the empty narrative; no branch writes a register before it can raise.
\<close>

definition execute :: "emulator \<Rightarrow> string \<Rightarrow> string \<Rightarrow> emulator \<times> string" where
  "execute e mnemonic op_str =
     (case execute_try e mnemonic op_str of
        Inl exn \<Rightarrow> (e, '''')
      | Inr (e', result_str) \<Rightarrow> (e', result_str))"

section \<open>The assembler\<close>

subsection \<open>The patterns of \<open>asm_to_hex\<close>\<close>

text \<open>
  The four regular expressions use literal text, character classes, a greedy \<open>+\<close> or
  \<open>*\<close> on a class, an optional character, alternatives and capturing groups that are
  neither nested nor repeated. \<open>rmatch\<close> lists every way in which a pattern matches a
  prefix of the text, in the order in which a backtracking matcher tries them: the longer
  repetition first, the left alternative first. Each way is the unread rest of the text
  and the groups closed so far; \<open>re.match\<close> returns the first one, and does not ask
  that the text ends where the pattern does. Matching is case sensitive (no flag is given).
\<close>

datatype regex =
    Lit string
  | One "char list"
  | Plus "char list"
  | Star "char list"
  | Opt char
  | Alt regex regex
  | Seq regex regex
  | Group regex

fun rmatch :: "regex \<Rightarrow> string \<times> string list \<Rightarrow> (string \<times> string list) list" where
  "rmatch (Lit l) (s, caps) = (if take (length l) s = l then [(drop (length l) s, caps)] else [])"
| "rmatch (One cls) (s, caps) =
     (case s of [] \<Rightarrow> [] | c # r \<Rightarrow> if c \<in> set cls then [(r, caps)] else [])"
| "rmatch (Plus cls) (s, caps) =
     (let n = length (takeWhile (\<lambda>c. c \<in> set cls) s)
      in map (\<lambda>k. (drop k s, caps)) (rev [1..<Suc n]))"
| "rmatch (Star cls) (s, caps) =
     (let n = length (takeWhile (\<lambda>c. c \<in> set cls) s)
      in map (\<lambda>k. (drop k s, caps)) (rev [0..<Suc n]))"
| "rmatch (Opt c) (s, caps) =
     (case s of [] \<Rightarrow> [(s, caps)] | x # r \<Rightarrow> if x = c then [(r, caps), (s, caps)] else [(s, caps)])"
| "rmatch (Alt a b) st = rmatch a st @ rmatch b st"
| "rmatch (Seq a b) st = concat (map (rmatch b) (rmatch a st))"
| "rmatch (Group r) (s, caps) =
     map (\<lambda>(s', caps'). (s', caps' @ [take (length s - length s') s])) (rmatch r (s, caps))"

definition re_match :: "regex \<Rightarrow> string \<Rightarrow> string list option" where
  "re_match r s = (case rmatch r (s, []) of [] \<Rightarrow> None | (rest, groups) # _ \<Rightarrow> Some groups)"

definition seqs :: "regex list \<Rightarrow> regex" where
  "seqs rs = foldr Seq rs (Lit [])"

definition space_chars :: "char list" where
  "space_chars = [CHR 0x09, CHR 0x0A, CHR 0x0B, CHR 0x0C, CHR 0x0D,
                  CHR 0x1C, CHR 0x1D, CHR 0x1E, CHR 0x1F, CHR 0x20]"

definition digits :: "char list" where
  "digits = ''0123456789''"

text \<open>\<open>(0x[0-9A-F]+|\d+)\<close>\<close>

definition imm_group :: regex where
  "imm_group = Group (Alt (Seq (Lit ''0x'') (Plus ''0123456789ABCDEF'')) (Plus digits))"

text \<open>\<open>([WX]\d+|SP)\<close>\<close>

definition reg_group :: regex where
  "reg_group = Group (Alt (Seq (One ''WX'') (Plus digits)) (Lit ''SP''))"

text \<open>\<open>OP\s+([WX]\d+|SP),\s*([WX]\d+|SP),\s*#?(0x[0-9A-F]+|\d+)\<close> for \<open>ADD\<close> and \<open>SUB\<close>\<close>

definition add_sub_pattern :: "string \<Rightarrow> regex" where
  "add_sub_pattern op =
     seqs [Lit op, Plus space_chars, reg_group, Lit '','', Star space_chars, reg_group,
           Lit '','', Star space_chars, Opt (CHR ''#''), imm_group]"

text \<open>\<open>MOV\s+([WX])(\d+),\s*#?(0x[0-9A-F]+|\d+)\<close>\<close>

definition mov_imm_pattern :: regex where
  "mov_imm_pattern =
     seqs [Lit ''MOV'', Plus space_chars, Group (One ''WX''), Group (Plus digits), Lit '','',
           Star space_chars, Opt (CHR ''#''), imm_group]"

text \<open>\<open>MOV\s+([WX]\d+|SP),\s*([WX]\d+|XZR|WZR|SP)\<close>\<close>

definition mov_reg_pattern :: regex where
  "mov_reg_pattern =
     seqs [Lit ''MOV'', Plus space_chars, reg_group, Lit '','', Star space_chars,
           Group (Alt (Seq (One ''WX'') (Plus digits))
                      (Alt (Lit ''XZR'') (Alt (Lit ''WZR'') (Lit ''SP''))))]"

subsection \<open>Encoding\<close>

text \<open>
  A conversion result is the \<open>error\<close> dictionary (\<open>Inl\<close>, one constructor for each
  message) or the dictionary of a success, of which the number behind \<open>hex\<close>,
  \<open>bytes_le\<close> and \<open>bytes_be\<close> is kept (\<open>Inr\<close>); its \<open>asm\<close> entry is the external
  decoder's text. A function that can also raise returns \<open>py_error + asm_result\<close>.
\<close>

datatype asm_error =
    Invalid_register
  | Register_size_mismatch string
  | SP_requires_64bit string
  | Invalid_immediate string
  | Cannot_encode_movz int
  | Pattern_not_supported
  | Parsing_failed

type_synonym asm_result = "asm_error + int"

text \<open>
  \<open>_format_result\<close>: \<open>hex_to_asm\<close> catches its own exceptions, then
  \<open>encoding.to_bytes(4, 'little')\<close> raises \<open>OverflowError\<close> for a value that is not
  an unsigned 32-bit number.
\<close>

definition format_result :: "int \<Rightarrow> py_error + asm_result" where
  "format_result encoding = (if fits_u32 encoding then Inr (Inr encoding) else Inl OverflowError)"

text \<open>\<open>_parse_register\<close>: the pair \<open>(sf, index)\<close>, or \<open>ValueError\<close>.\<close>

definition parse_register :: "string \<Rightarrow> py_error + int \<times> int" where
  "parse_register reg_str0 =
     (let reg_str = upper reg_str0
      in if reg_str = ''SP'' then Inr (1, 31)
         else if reg_str = ''XZR'' \<or> reg_str = ''WZR'' then Inr (1, 31)
         else if startswith reg_str ''X'' then
           (case py_int 10 (drop 1 reg_str) of None \<Rightarrow> Inl ValueError | Some n \<Rightarrow> Inr (1, n))
         else if startswith reg_str ''W'' then
           (case py_int 10 (drop 1 reg_str) of None \<Rightarrow> Inl ValueError | Some n \<Rightarrow> Inr (0, n))
         else Inl ValueError)"

text \<open>
  \<open>_encode_add_sub_imm\<close> on the groups of the match. A \<open>ValueError\<close> of
  \<open>_parse_register\<close> is caught and reported; one of \<open>int(imm_str, 0)\<close> is not.
\<close>

definition encode_add_sub_imm :: "string \<Rightarrow> string list \<Rightarrow> py_error + asm_result" where
  "encode_add_sub_imm op groups =
     (case groups of
        [rd_str, rn_str, imm_str] \<Rightarrow>
          (case (parse_register rd_str, parse_register rn_str) of
             (Inr (sf_d, rd), Inr (sf_n, rn)) \<Rightarrow>
               if rd_str \<noteq> ''SP'' \<and> rn_str \<noteq> ''SP'' \<and> sf_d \<noteq> sf_n
                 then Inr (Inl (Register_size_mismatch op))
               else if (rd_str = ''SP'' \<or> rn_str = ''SP'') \<and> sf_d = 0
                 then Inr (Inl (SP_requires_64bit op))
               else
                 (let sf = (if startswith rd_str ''X'' \<or> rd_str = ''SP'' then 1 else 0 :: int)
                  in case py_int 0 imm_str of
                       None \<Rightarrow> Inl ValueError
                     | Some imm_val0 \<Rightarrow>
                         if 0 \<le> imm_val0 \<and> imm_val0 \<le> 0xFFF then
                           (let shift = 0; imm_val = imm_val0;
                                base_add = (if sf \<noteq> 0 then 0x91000000 else 0x11000000);
                                base_sub = (if sf \<noteq> 0 then 0xD1000000 else 0x51000000);
                                base = (if op = ''ADD'' then base_add else base_sub)
                            in format_result
                                 (base OR push_bit 22 shift OR push_bit 10 imm_val OR
                                  push_bit 5 rn OR rd))
                         else if 0 < imm_val0 \<and> imm_val0 \<le> push_bit 12 0xFFF \<and>
                                 imm_val0 mod push_bit 12 1 = 0 then
                           (let imm_val = drop_bit 12 imm_val0; shift = 1;
                                base_add = (if sf \<noteq> 0 then 0x91000000 else 0x11000000);
                                base_sub = (if sf \<noteq> 0 then 0xD1000000 else 0x51000000);
                                base = (if op = ''ADD'' then base_add else base_sub)
                            in format_result
                                 (base OR push_bit 22 shift OR push_bit 10 imm_val OR
                                  push_bit 5 rn OR rd))
                         else Inr (Inl (Invalid_immediate op)))
           | _ \<Rightarrow> Inr (Inl Invalid_register))
      | _ \<Rightarrow> Inl ValueError)"

text \<open>\<open>_encode_mov_imm\<close>: \<open>MOVZ\<close> with \<open>hw = 0\<close>.\<close>

definition encode_mov_imm :: "string list \<Rightarrow> py_error + asm_result" where
  "encode_mov_imm groups =
     (case groups of
        [size_str, rd_str, imm_str] \<Rightarrow>
          (let sf = (if size_str = ''X'' then 1 else 0 :: int)
           in case py_int 10 rd_str of
                None \<Rightarrow> Inl ValueError
              | Some rd \<Rightarrow>
                  (case py_int 0 imm_str of
                     None \<Rightarrow> Inl ValueError
                   | Some imm_val \<Rightarrow>
                       if 0 \<le> imm_val \<and> imm_val \<le> 0xFFFF then
                         (let hw = 0; imm16 = imm_val;
                              base = (if sf \<noteq> 0 then 0xD2800000 else 0x52800000)
                          in format_result (base OR push_bit 21 hw OR push_bit 5 imm16 OR rd))
                       else Inr (Inl (Cannot_encode_movz imm_val))))
      | _ \<Rightarrow> Inl ValueError)"

text \<open>\<open>_encode_mov_reg\<close>: \<open>ORR Rd, XZR/WZR, Rm\<close> with \<open>Rn = 31\<close>.\<close>

definition encode_mov_reg :: "string list \<Rightarrow> py_error + asm_result" where
  "encode_mov_reg groups =
     (case groups of
        [rd_str, rm_str] \<Rightarrow>
          (case (parse_register rd_str, parse_register rm_str) of
             (Inr (sf_d, rd), Inr (sf_m, rm)) \<Rightarrow>
               if rm_str \<noteq> ''XZR'' \<and> rm_str \<noteq> ''WZR'' \<and> rd_str \<noteq> ''SP'' \<and>
                  rm_str \<noteq> ''SP'' \<and> sf_d \<noteq> sf_m
                 then Inr (Inl (Register_size_mismatch ''MOV''))
               else
                 (let sf = (if startswith rd_str ''X'' \<or> rd_str = ''SP'' \<or>
                               startswith rm_str ''X'' \<or> rm_str = ''SP'' then 1 else 0 :: int);
                      rn = 31;
                      base = (if sf \<noteq> 0 then 0xAA000000 else 0x2A000000)
                  in format_result (base OR push_bit 16 rm OR push_bit 5 rn OR rd))
           | _ \<Rightarrow> Inr (Inl Invalid_register))
      | _ \<Rightarrow> Inl ValueError)"

text \<open>
  \<open>asm_to_hex\<close>: the patterns are tried in the source's order on the stripped,
  upper-cased text; an exception raised on the way is reported as a parsing failure.
\<close>

definition asm_to_hex_try :: "string \<Rightarrow> py_error + asm_result" where
  "asm_to_hex_try asm_text =
     (let asm_text_orig = strip asm_text;
          asm_text_upper = upper asm_text_orig
      in if asm_text_upper = ''NOP'' then format_result 0xD503201F
         else case re_match (add_sub_pattern ''ADD'') asm_text_upper of
           Some add_match \<Rightarrow> encode_add_sub_imm ''ADD'' add_match
         | None \<Rightarrow>
        (case re_match (add_sub_pattern ''SUB'') asm_text_upper of
           Some sub_match \<Rightarrow> encode_add_sub_imm ''SUB'' sub_match
         | None \<Rightarrow>
        (case re_match mov_imm_pattern asm_text_upper of
           Some mov_imm_match \<Rightarrow> encode_mov_imm mov_imm_match
         | None \<Rightarrow>
        (case re_match mov_reg_pattern asm_text_upper of
           Some mov_reg_match \<Rightarrow> encode_mov_reg mov_reg_match
         | None \<Rightarrow> Inr (Inl Pattern_not_supported)))))"

definition asm_to_hex :: "string \<Rightarrow> asm_result" where
  "asm_to_hex asm_text =
     (case asm_to_hex_try asm_text of Inl exn \<Rightarrow> Inl Parsing_failed | Inr result \<Rightarrow> result)"

section \<open>The specification's reading of a lock that is too large\<close>

text \<open>
  The specification says that a lock value exceeding the field's bit width is
  \<^emph>\<open>clamped into range\<close>. Read as the usual clamp, that is the nearest value of the
  range \<open>[0, 2^width - 1]\<close>. This definition follows the specification's words, for
  comparison with what \<open>iterate_field_space\<close> and \<open>assemble_value\<close> compute.
\<close>

definition clamped_into_range :: "int \<Rightarrow> nat \<Rightarrow> int" where
  "clamped_into_range v width = max 0 (min v (2 ^ width - 1))"

section \<open>Properties of the bitfield codec\<close>

lemma vbit_eq: "drop_bit i (x::int) AND 1 = of_bool (bit x i)"
  by (simp add: and_one_eq bit_iff_odd_drop_bit mod_2_eq_odd)

lemma classify_bit_eq:
  "classify_bit base msk val i =
     (if bit val i = bit base i then MATCH
      else if bit msk i then VIOLATION else LEGAL_VARIATION)"
  by (auto simp: classify_bit_def vbit_eq Let_def)

lemma write_window_bit:
  "bit (write_window val s w v) i = (if s \<le> i \<and> i < s + w then bit v (i - s) else bit val i)"
  by (auto simp: write_window_def Let_def bit_simps simp flip: mask_eq_exp_minus_1)

lemma field_mask_bit:
  "bit (push_bit start (push_bit width 1 - 1 :: int)) i \<longleftrightarrow> start \<le> i \<and> i < start + width"
  by (auto simp: bit_simps simp flip: mask_eq_exp_minus_1)

text \<open>
  Claim C3. For every descriptor (base, mask), assembled value and bit index (the 32 that
  \<open>colorize_bits\<close> visits, and any other), the classification is three-way: the bit
  is a \<open>MATCH\<close> exactly when it equals the base bit, a \<open>LEGAL_VARIATION\<close> exactly when
  it differs and the mask bit is 0, a \<open>VIOLATION\<close> exactly when it differs and the mask
  bit is 1. So a value that differs from the base only inside the window of a field that
  lies in unmasked bits has no \<open>VIOLATION\<close>, each of its changed bits being a
  \<open>LEGAL_VARIATION\<close>, and the base with one masked bit flipped has a \<open>VIOLATION\<close> there.
\<close>

theorem colorize_bits_classification:
  fixes base msk val :: int
  shows
  "(classify_bit base msk val i = MATCH \<longleftrightarrow> bit val i = bit base i) \<and>
   (classify_bit base msk val i = LEGAL_VARIATION \<longleftrightarrow> bit val i \<noteq> bit base i \<and> \<not> bit msk i) \<and>
   (classify_bit base msk val i = VIOLATION \<longleftrightarrow> bit val i \<noteq> bit base i \<and> bit msk i) \<and>
   (push_bit start (push_bit width 1 - 1) AND msk = 0 \<longrightarrow>
      (\<forall>j. \<not> (start \<le> j \<and> j < start + width) \<longrightarrow> bit val j = bit base j) \<longrightarrow>
      classify_bit base msk val i \<noteq> VIOLATION \<and>
      (bit val i \<noteq> bit base i \<longrightarrow> classify_bit base msk val i = LEGAL_VARIATION)) \<and>
   (bit msk i \<longrightarrow> classify_bit base msk (base XOR push_bit i 1) i = VIOLATION)"
proof -
  have three: "(classify_bit base msk val i = MATCH \<longleftrightarrow> bit val i = bit base i) \<and>
     (classify_bit base msk val i = LEGAL_VARIATION \<longleftrightarrow> bit val i \<noteq> bit base i \<and> \<not> bit msk i) \<and>
     (classify_bit base msk val i = VIOLATION \<longleftrightarrow> bit val i \<noteq> bit base i \<and> bit msk i)"
    by (simp add: classify_bit_eq)
  have inside: "classify_bit base msk val i \<noteq> VIOLATION \<and>
      (bit val i \<noteq> bit base i \<longrightarrow> classify_bit base msk val i = LEGAL_VARIATION)"
    if free: "push_bit start (push_bit width 1 - 1) AND msk = 0"
    and only: "\<forall>j. \<not> (start \<le> j \<and> j < start + width) \<longrightarrow> bit val j = bit base j"
  proof -
    have "\<not> bit msk i" if "bit val i \<noteq> bit base i"
    proof
      assume m: "bit msk i"
      from that only have "start \<le> i \<and> i < start + width" by blast
      then have "bit (push_bit start (push_bit width 1 - 1 :: int) AND msk) i"
        using m by (simp only: bit_and_iff field_mask_bit simp_thms)
      with free show False by simp
    qed
    then show ?thesis by (auto simp: classify_bit_eq)
  qed
  have flip: "classify_bit base msk (base XOR push_bit i 1) i = VIOLATION" if "bit msk i"
    using that by (simp add: classify_bit_eq bit_simps)
  from three inside flip show ?thesis by blast
qed

theorem colorize_bits_classification_witness:
  "classify_bit 0x2A000000 0x7FE00000 (write_window 0x2A000000 0 5 7) 1 = LEGAL_VARIATION \<and>
   classify_bit 0x2A000000 0x7FE00000 (write_window 0x2A000000 0 5 7) 1 \<noteq> VIOLATION \<and>
   classify_bit 0x2A000000 0x7FE00000 (0x2A000000 XOR push_bit 21 1) 21 = VIOLATION"
proof -
  have free: "push_bit 0 (push_bit 5 1 - 1) AND (0x7FE00000 :: int) = 0"
    by simp
  have only: "\<forall>j. \<not> (0 \<le> j \<and> j < 0 + (5::nat)) \<longrightarrow>
                 bit (write_window 0x2A000000 0 5 7) j = bit (0x2A000000 :: int) j"
    by (simp add: write_window_bit)
  have diff: "bit (write_window 0x2A000000 0 5 7) 1 \<noteq> bit (0x2A000000 :: int) 1"
    by (simp add: write_window_def bit_iff_odd_drop_bit)
  have m: "bit (0x7FE00000 :: int) 21"
    by (simp add: bit_iff_odd_drop_bit)
  from colorize_bits_classification
         [of "0x2A000000" "0x7FE00000" "write_window 0x2A000000 0 5 7" 1 0 5] free only diff
  have a: "classify_bit 0x2A000000 0x7FE00000 (write_window 0x2A000000 0 5 7) 1 = LEGAL_VARIATION \<and>
           classify_bit 0x2A000000 0x7FE00000 (write_window 0x2A000000 0 5 7) 1 \<noteq> VIOLATION"
    by blast
  from colorize_bits_classification [of "0x2A000000" "0x7FE00000" 0 21 0 5] m
  have b: "classify_bit 0x2A000000 0x7FE00000 (0x2A000000 XOR push_bit 21 1) 21 = VIOLATION"
    by blast
  from a b show ?thesis by blast
qed

lemma apply_combo_frame:
  "(\<And>fname start width. dict_has combo_map fname \<Longrightarrow> map_of flds fname = Some (start, width)
       \<Longrightarrow> \<not> (start \<le> i \<and> i < start + width))
   \<Longrightarrow> bit (apply_combo flds combo_map val) i = bit val i"
proof (induction combo_map arbitrary: val)
  case Nil
  then show ?case by simp
next
  case (Cons p combo_map)
  obtain fname v0 where p: "p = (fname, v0)" by (cases p)
  have rest: "bit (apply_combo flds combo_map v) i = bit v i" for v
  proof (rule Cons.IH)
    fix f s w
    assume "dict_has combo_map f" and "map_of flds f = Some (s, w)"
    then show "\<not> (s \<le> i \<and> i < s + w)"
      using Cons.prems [of f s w] by (auto simp: dict_has_def p)
  qed
  show ?case
  proof (cases "map_of flds fname")
    case None
    then show ?thesis by (simp add: p rest)
  next
    case (Some win)
    obtain s w where win: "win = (s, w)" by (cases win)
    have "\<not> (s \<le> i \<and> i < s + w)"
      using Cons.prems [of fname s w] Some by (simp add: dict_has_def p win)
    then show ?thesis by (auto simp: p Some win rest write_window_bit)
  qed
qed

lemma apply_locks_frame:
  "(\<And>fname start width. (fname, (start, width)) \<in> set flds \<Longrightarrow> \<not> dict_has combo_map fname
       \<Longrightarrow> dict_has locks fname \<Longrightarrow> \<not> (start \<le> i \<and> i < start + width))
   \<Longrightarrow> bit (snd (apply_locks flds combo_map locks (out, val))) i = bit val i"
proof (induction flds arbitrary: out val)
  case Nil
  then show ?case by simp
next
  case (Cons p flds)
  obtain fname s w where p: "p = (fname, (s, w))" by (cases p) auto
  have rest: "bit (snd (apply_locks flds combo_map locks (o', v))) i = bit v i" for o' v
    by (rule Cons.IH) (use Cons.prems in auto)
  show ?case
  proof (cases "\<not> dict_has combo_map fname \<and> dict_has locks fname")
    case True
    then have "\<not> (s \<le> i \<and> i < s + w)"
      using Cons.prems [of fname s w] by (simp add: p)
    with True show ?thesis by (auto simp: p rest write_window_bit Let_def)
  next
    case False
    then show ?thesis by (auto simp: p rest)
  qed
qed

text \<open>
  Claim C10. The value produced by \<open>assemble_value\<close> agrees with the descriptor's base
  on every bit position outside the windows of the fields that are written: the
  descriptor's fields that are keys of the varied map, and those that are locked and
  are not keys of the varied map.
\<close>

theorem assemble_value_frame:
  assumes "\<forall>fname start width.
             dict_has combo_map fname \<and> map_of (spec_fields spec) fname = Some (start, width)
             \<longrightarrow> \<not> (start \<le> i \<and> i < start + width)"
    and "\<forall>fname start width.
           (fname, (start, width)) \<in> set (spec_fields spec) \<and> \<not> dict_has combo_map fname \<and>
           dict_has locks fname \<longrightarrow> \<not> (start \<le> i \<and> i < start + width)"
  shows "bit (snd (assemble_value spec combo_map locks)) i = bit (spec_base spec) i"
proof -
  have "bit (snd (assemble_value spec combo_map locks)) i =
        bit (apply_combo (spec_fields spec) combo_map (spec_base spec)) i"
    unfolding assemble_value_def using assms(2) by (intro apply_locks_frame) blast
  also have "\<dots> = bit (spec_base spec) i"
    using assms(1) by (intro apply_combo_frame) blast
  finally show ?thesis .
qed

theorem assemble_value_frame_witness:
  "bit (snd (assemble_value ORR_spec [(''Rd'', 3)] [(''Rn'', 31), (''Rd'', 9)])) 16 =
   bit (spec_base ORR_spec) 16"
proof (rule assemble_value_frame)
  show "\<forall>fname start width.
          dict_has [(''Rd'', 3)] fname \<and> map_of (spec_fields ORR_spec) fname = Some (start, width)
          \<longrightarrow> \<not> (start \<le> 16 \<and> 16 < start + width)"
    by (auto simp: dict_has_def ORR_spec_def reg_fields_def split: if_splits)
  show "\<forall>fname start width.
          (fname, (start, width)) \<in> set (spec_fields ORR_spec) \<and> \<not> dict_has [(''Rd'', 3)] fname \<and>
          dict_has [(''Rn'', 31), (''Rd'', 9)] fname \<longrightarrow> \<not> (start \<le> 16 \<and> 16 < start + width)"
    by (auto simp: dict_has_def ORR_spec_def reg_fields_def split: if_splits)
qed

section \<open>Properties of alias resolution and of the enumerator\<close>

lemma map_of_dict_set: "map_of (dict_set d k v) = (map_of d)(k \<mapsto> v)"
  by (induction d) (auto simp: fun_eq_iff)

lemma map_of_merge_alias_locks:
  "map_of (merge_alias_locks locks locked_fields) field =
     (case map_of locks field of Some v \<Rightarrow> Some v | None \<Rightarrow> map_of locked_fields field)"
proof -
  define stp :: "string \<times> int \<Rightarrow> (string, int) dict \<Rightarrow> (string, int) dict"
    where "stp = (\<lambda>(field, value) l. if \<not> dict_has l field then dict_set l field value else l)"
  have stp: "map_of (stp (f, v) l) = (if map_of l f = None then (map_of l)(f \<mapsto> v) else map_of l)"
    for f v l
    by (simp add: stp_def dict_has_def map_of_dict_set)
  have "map_of (fold stp locked_fields l) field =
          (case map_of l field of Some v \<Rightarrow> Some v | None \<Rightarrow> map_of locked_fields field)" for l
  proof (induction locked_fields arbitrary: l)
    case Nil
    then show ?case by (simp split: option.splits)
  next
    case (Cons p locked_fields)
    obtain f v where p: "p = (f, v)" by (cases p)
    show ?case
      by (auto simp: p Cons.IH stp split: option.splits)
  qed
  then show ?thesis by (simp add: merge_alias_locks_def stp_def)
qed

text \<open>
  Claim C4. Alias resolution keeps every lock of the caller and adds an alias lock only
  for a field that the caller did not lock, so the caller's locks win: resolving \<open>CMP\<close>
  with the caller's lock \<open>Rd = 5\<close> gives the base mnemonic \<open>SUBS\<close> and the locks
  \<open>Rd = 5\<close>, not the alias's \<open>Rd = 31\<close>.
\<close>

theorem resolve_alias_caller_locks_win:
  "(\<forall>field v. map_of locks field = Some v \<longrightarrow>
       map_of (snd (resolve_alias opcode locks)) field = Some v) \<and>
   (\<forall>base_op locked_fields field.
       map_of INSTRUCTION_ALIASES (upper opcode) = Some (base_op, locked_fields) \<and>
       map_of locks field = None \<longrightarrow>
       fst (resolve_alias opcode locks) = base_op \<and>
       map_of (snd (resolve_alias opcode locks)) field = map_of locked_fields field) \<and>
   resolve_alias ''CMP'' [(''Rd'', 5)] = (''SUBS'', [(''Rd'', 5)])"
proof (intro conjI allI impI)
  fix field v
  assume "map_of locks field = Some v"
  then show "map_of (snd (resolve_alias opcode locks)) field = Some v"
    by (simp add: resolve_alias_def Let_def map_of_merge_alias_locks split: option.splits)
next
  fix base_op locked_fields field
  assume a: "map_of INSTRUCTION_ALIASES (upper opcode) = Some (base_op, locked_fields) \<and>
             map_of locks field = None"
  then show "fst (resolve_alias opcode locks) = base_op"
    by (simp add: resolve_alias_def Let_def)
  from a show "map_of (snd (resolve_alias opcode locks)) field = map_of locked_fields field"
    by (simp add: resolve_alias_def Let_def map_of_merge_alias_locks)
next
  show "resolve_alias ''CMP'' [(''Rd'', 5)] = (''SUBS'', [(''Rd'', 5)])"
    by (simp add: resolve_alias_def upper_def upper_char_def INSTRUCTION_ALIASES_def
        merge_alias_locks_def dict_has_def)
qed

theorem resolve_alias_caller_locks_win_witness:
  "map_of (snd (resolve_alias ''cmp'' [(''Rd'', 5), (''sf'', 1)])) ''Rd'' = Some 5 \<and>
   fst (resolve_alias ''tst'' [(''sf'', 1)]) = ''ANDS'' \<and>
   map_of (snd (resolve_alias ''tst'' [(''sf'', 1)])) ''Rd'' = Some 31"
proof -
  have l: "map_of [(''Rd'', 5 :: int), (''sf'', 1)] ''Rd'' = Some 5"
    by simp
  have a: "map_of INSTRUCTION_ALIASES (upper ''tst'') = Some (''ANDS'', [(''Rd'', 31)]) \<and>
           map_of [(''sf'', 1 :: int)] ''Rd'' = None"
    by (simp add: INSTRUCTION_ALIASES_def upper_def upper_char_def)
  from resolve_alias_caller_locks_win [of "[(''Rd'', 5), (''sf'', 1)]" "''cmp''"] l
  have 1: "map_of (snd (resolve_alias ''cmp'' [(''Rd'', 5), (''sf'', 1)])) ''Rd'' = Some 5"
    by blast
  from resolve_alias_caller_locks_win [of "[(''sf'', 1)]" "''tst''"] a
  have 2: "fst (resolve_alias ''tst'' [(''sf'', 1)]) = ''ANDS'' \<and>
           map_of (snd (resolve_alias ''tst'' [(''sf'', 1)])) ''Rd'' = map_of [(''Rd'', 31)] ''Rd''"
    by blast
  from 1 2 show ?thesis by simp
qed

lemma printed_values_append: "printed_values (a @ b) = printed_values a @ printed_values b"
  by (induction a rule: printed_values.induct) auto

lemma printed_values_apply_locks:
  "printed_values (fst (apply_locks flds combo_map locks (out, val))) = printed_values out"
  by (induction flds arbitrary: out val) (auto simp: Let_def printed_values_append)

lemma printed_values_assemble_value: "printed_values (fst (assemble_value spec combo_map locks)) = []"
  by (simp add: assemble_value_def printed_values_apply_locks)

lemma explore_loop_cap:
  "count < limit \<Longrightarrow>
   int (length (printed_values (fst (explore_loop spec locks limit combos count)))) \<le> limit - count"
proof (induction combos arbitrary: count)
  case Nil
  then show ?case by simp
next
  case (Cons combo_map combos)
  obtain wrn val where av: "assemble_value spec combo_map locks = (wrn, val)"
    by (cases "assemble_value spec combo_map locks")
  have wrn: "printed_values wrn = []"
    using printed_values_assemble_value [of spec combo_map locks] by (simp add: av)
  show ?case
  proof (cases "\<not> fits_u32 val \<or> count + 1 \<ge> limit")
    case True
    then show ?thesis using Cons.prems by (auto simp: av wrn printed_values_append)
  next
    case False
    then have lt: "count + 1 < limit" by simp
    obtain out err c where r: "explore_loop spec locks limit combos (count + 1) = (out, err, c)"
      by (cases "explore_loop spec locks limit combos (count + 1)")
    from Cons.IH [OF lt] have "int (length (printed_values out)) \<le> limit - (count + 1)"
      by (simp add: r)
    with False show ?thesis by (simp add: av r wrn printed_values_append)
  qed
qed

lemma printed_values_build_domains:
  "printed_values (fst (build_domains flds vary locks step (out, domains, order))) =
   printed_values out"
  by (induction vary arbitrary: out domains order)
     (auto simp: Let_def printed_values_append split: option.splits sum.splits)

lemma printed_values_iterate_field_space:
  "printed_values (fst (iterate_field_space flds vary locks step)) = []"
proof -
  obtain out r where b: "build_domains flds vary locks step ([], [], []) = (out, r)"
    by (cases "build_domains flds vary locks step ([], [], [])")
  have "printed_values out = []"
    using printed_values_build_domains [of flds vary locks step "[]" "[]" "[]"] by (simp add: b)
  then show ?thesis
    by (auto simp: iterate_field_space_def b printed_values_append split: sum.splits)
qed

lemma explore_loop_cap0:
  "1 \<le> lim \<Longrightarrow> explore_loop spec locks lim combos 0 = (out, err, c) \<Longrightarrow>
   int (length (printed_values out)) \<le> lim"
  using explore_loop_cap [of 0 lim spec locks combos] by simp

lemma printed_values_assemble_value':
  "assemble_value spec combo_map locks = (wrn, val) \<Longrightarrow> printed_values wrn = []"
  using printed_values_assemble_value [of spec combo_map locks] by simp

lemma printed_values_iterate_field_space':
  "iterate_field_space flds vary locks step = (out, r) \<Longrightarrow> printed_values out = []"
  using printed_values_iterate_field_space [of flds vary locks step] by simp

text \<open>
  For a limit of at least 1 the cap holds on every path of \<open>explore_opcode\<close>: at most
  \<open>limit\<close> assembled values are printed, however large the product of the field
  domains is.
\<close>

lemma explore_opcode_cap:
  assumes "1 \<le> limit"
  shows "int (length (printed_values (fst (explore_opcode spec limit step vary_fields locks))))
         \<le> limit"
proof -
  obtain vf lim out0 where v: "explore_vary spec limit vary_fields = (vf, lim, out0)"
    by (cases "explore_vary spec limit vary_fields")
  have lim: "1 \<le> lim" "lim \<le> limit"
    using v assms by (auto simp: explore_vary_def Let_def split: if_splits)
  have out0: "printed_values out0 = []"
    using v by (auto simp: explore_vary_def Let_def split: if_splits)
  show ?thesis
  proof (cases "spec_fields spec = []")
    case True
    then show ?thesis
      using assms by (simp add: explore_opcode_def Let_def v out0 printed_values_append)
  next
    case fields: False
    show ?thesis
    proof (cases "vf = [] \<and> lim > 0")
      case True
      obtain wrn val where a: "assemble_value spec [] locks = (wrn, val)"
        by (cases "assemble_value spec [] locks")
      have "printed_values wrn = []"
        using a by (rule printed_values_assemble_value')
      then show ?thesis
        using assms True fields by (simp add: explore_opcode_def Let_def v a out0 printed_values_append)
    next
      case False
      obtain out1 r where i: "iterate_field_space (spec_fields spec) vf locks step = (out1, r)"
        by (cases "iterate_field_space (spec_fields spec) vf locks step")
      have out1: "printed_values out1 = []"
        using i by (rule printed_values_iterate_field_space')
      show ?thesis
      proof (cases r)
        case (Inl e)
        then show ?thesis
          using assms False fields
          by (auto simp: explore_opcode_def Let_def v i out0 out1 printed_values_append)
      next
        case (Inr combos)
        obtain out2 err c where l: "explore_loop spec locks lim combos 0 = (out2, err, c)"
          by (cases "explore_loop spec locks lim combos 0")
        have "int (length (printed_values out2)) \<le> lim"
          using lim(1) l by (rule explore_loop_cap0)
        then show ?thesis
          using lim(2) False fields
          by (auto simp: explore_opcode_def Let_def v i Inr l out0 out1 printed_values_append)
      qed
    qed
  qed
qed

lemma explore_opcode_cap_example:
  "(1::int) \<le> 3 \<and>
   int (length (printed_values (fst (explore_opcode ADD_spec 3 4 [''sf'', ''shift''] [])))) \<le> 3"
  using explore_opcode_cap [of 3 ADD_spec 4 "[''sf'', ''shift'']" "[]"] by simp

text \<open>
  Claim C2 on the code. The claim includes the limit 0. Exploring \<open>ADD\<close> with the
  vary-set \<open>sf\<close> and the limit 0 prints one value, not none: the loop counts the line
  it has printed before it compares the count with the limit, where the branch for
  locked fields beside it asks for \<open>limit > 0\<close> first.
\<close>

theorem explore_opcode_limit_zero_prints_one:
  "printed_values (fst (explore_opcode ADD_spec 0 4 [''sf''] [])) = [0x0B000000] \<and>
   \<not> int (length (printed_values (fst (explore_opcode ADD_spec 0 4 [''sf''] [])))) \<le> 0"
  by code_simp


section \<open>Properties of the emulator\<close>

lemma and_mask64: "(x::int) AND 0xFFFFFFFFFFFFFFFF = x mod 2 ^ 64"
proof -
  have "(0xFFFFFFFFFFFFFFFF :: int) = mask 64" by (simp add: mask_eq_exp_minus_1)
  then show ?thesis by (simp only: flip: take_bit_eq_mask) (simp add: take_bit_eq_mod)
qed

lemma and_mask32: "(x::int) AND 0xFFFFFFFF = x mod 2 ^ 32"
proof -
  have "(0xFFFFFFFF :: int) = mask 32" by (simp add: mask_eq_exp_minus_1)
  then show ?thesis by (simp only: flip: take_bit_eq_mask) (simp add: take_bit_eq_mod)
qed

lemma set_reg_zero_register:
  "upper rd = ''XZR'' \<or> upper rd = ''WZR'' \<Longrightarrow> set_reg e rd x = e"
  by (auto simp: set_reg_def Let_def)

text \<open>Every successful branch leaves the register file as it was or sets the first operand.\<close>

lemma execute_try_writes:
  "execute_try e mnemonic op_str = Inr (e', s) \<Longrightarrow>
   e' = e \<or> (\<exists>x. e' = set_reg e (strip (hd (split_on CHR '','' op_str))) x)"
proof -
  have hd: "map strip (split_on CHR '','' op_str) = rd # rest \<Longrightarrow>
            rd = strip (hd (split_on CHR '','' op_str))" for rd rest
    by (cases "split_on CHR '','' op_str") auto
  assume "execute_try e mnemonic op_str = Inr (e', s)"
  then show ?thesis
    unfolding execute_try_def Let_def exec_arith_imm_def exec_arith_reg_def exec_mov_imm_def
      exec_mov_reg_def exec_logic_reg_def
    by (auto split: if_splits list.splits option.splits dest!: hd)
qed

lemma execute_writes:
  "fst (execute e mnemonic op_str) = e \<or>
   (\<exists>x. fst (execute e mnemonic op_str) = set_reg e (strip (hd (split_on CHR '','' op_str))) x)"
proof (cases "execute_try e mnemonic op_str")
  case (Inl exn)
  then show ?thesis by (simp add: execute_def)
next
  case (Inr p)
  obtain e' s where p: "p = (e', s)" by (cases p)
  from execute_try_writes [of e mnemonic op_str e' s] Inr p show ?thesis
    by (simp add: execute_def)
qed

lemma get_set_reg_X:
  "startswith (upper rd) ''X'' \<Longrightarrow> upper rd \<noteq> ''XZR'' \<Longrightarrow>
   get_reg (set_reg e rd x) rd = x mod 2 ^ 64"
  unfolding get_reg_def set_reg_def Let_def and_mask64
  by (auto simp: regs_get_def startswith_def)

lemma py_int_hash_one: "py_int 0 (filter (\<lambda>c. c \<noteq> CHR ''#'') ''#1'') = Some 1"
  by (simp add: py_int_def is_c_space_def digit_value_def)

lemma upper_X0: "startswith (upper ''X0'') ''X'' \<and> upper ''X0'' \<noteq> ''XZR''"
  by (simp add: startswith_def upper_def upper_char_def)

lemma exec_arith_imm_Some:
  "py_int 0 (filter (\<lambda>c. c \<noteq> CHR ''#'') imm_str) = Some k \<Longrightarrow>
   \<exists>s. exec_arith_imm e f opsym [rd, rn, imm_str] =
         Inr (set_reg e rd (f (get_reg e rn) k AND 0xFFFFFFFFFFFFFFFF), s)"
  by (simp add: exec_arith_imm_def Let_def)

lemma add_max:
  "get_reg (fst (execute (set_reg e ''X0'' 0xFFFFFFFFFFFFFFFF) ''ADD'' ''X0, X0, #1'')) ''X0'' = 0"
proof -
  let ?e = "set_reg e ''X0'' 0xFFFFFFFFFFFFFFFF"
  have g: "get_reg ?e ''X0'' = 0xFFFFFFFFFFFFFFFF"
    using upper_X0 by (simp add: get_set_reg_X)
  have t: "execute_try ?e ''ADD'' ''X0, X0, #1'' =
           exec_arith_imm ?e (+) ''+'' [''X0'', ''X0'', ''#1'']"
    by (simp add: execute_try_def strip_def is_space_def upper_def upper_char_def)
  from exec_arith_imm_Some [OF py_int_hash_one, of ?e "(+)" "''+''" "''X0''" "''X0''"]
  obtain s where "exec_arith_imm ?e (+) ''+'' [''X0'', ''X0'', ''#1''] =
                    Inr (set_reg ?e ''X0'' ((get_reg ?e ''X0'' + 1) AND 0xFFFFFFFFFFFFFFFF), s)" ..
  then have "fst (execute ?e ''ADD'' ''X0, X0, #1'') = set_reg ?e ''X0'' 0"
    by (simp add: execute_def t g)
  then show ?thesis
    using upper_X0 by (simp add: get_set_reg_X)
qed
lemma execute_arith_imm:
  assumes "upper mnemonic = ''ADD'' \<and> f = (+) \<and> opsym = ''+'' \<or>
           upper mnemonic = ''SUB'' \<and> f = (-) \<and> opsym = ''-''"
    and "map strip (split_on CHR '','' op_str) = [rd, rn, imm_str]"
    and "CHR ''#'' \<in> set op_str"
    and "py_int 0 (filter (\<lambda>c. c \<noteq> CHR ''#'') imm_str) = Some k"
  shows "execute e mnemonic op_str =
           (set_reg e rd (f (get_reg e rn) k mod 2 ^ 64),
            ''; '' @ rd @ '' = '' @ rn @ '' '' @ opsym @ '' '' @ imm_str @ '' = '' @
            fmt_hex (get_reg e rn) @ '' '' @ opsym @ '' '' @ fmt_hex k @ '' = '' @
            fmt_hex (f (get_reg e rn) k mod 2 ^ 64))"
  using assms
  by (auto simp: execute_def execute_try_def exec_arith_imm_def Let_def and_mask64)

lemma execute_arith_reg:
  assumes "upper mnemonic = ''ADD'' \<and> f = (+) \<and> opsym = ''+'' \<or>
           upper mnemonic = ''SUB'' \<and> f = (-) \<and> opsym = ''-''"
    and "map strip (split_on CHR '','' op_str) = [rd, rn, rm]"
    and "CHR ''#'' \<notin> set op_str"
  shows "execute e mnemonic op_str =
           (set_reg e rd (f (get_reg e rn) (get_reg e rm) mod 2 ^ 64),
            ''; '' @ rd @ '' = '' @ rn @ '' '' @ opsym @ '' '' @ rm @ '' = '' @
            fmt_hex (get_reg e rn) @ '' '' @ opsym @ '' '' @ fmt_hex (get_reg e rm) @ '' = '' @
            fmt_hex (f (get_reg e rn) (get_reg e rm) mod 2 ^ 64))"
  using assms
  by (auto simp: execute_def execute_try_def exec_arith_reg_def Let_def and_mask64)

lemma execute_logic_reg:
  assumes "upper mnemonic = ''AND'' \<and> f = (AND) \<or> upper mnemonic = ''ORR'' \<and> f = (OR) \<or>
           upper mnemonic = ''EOR'' \<and> f = (XOR)"
    and "map strip (split_on CHR '','' op_str) = [rd, rn, rm]"
    and "CHR ''#'' \<notin> set op_str"
  shows "fst (execute e mnemonic op_str) = set_reg e rd (f (get_reg e rn) (get_reg e rm))"
  using assms
  by (auto simp: execute_def execute_try_def exec_logic_reg_def Let_def)

lemma execute_mov:
  assumes "upper mnemonic = ''MOV''"
    and "map strip (split_on CHR '','' op_str) = [rd, src]"
  shows "CHR ''#'' \<notin> set op_str \<longrightarrow>
           fst (execute e mnemonic op_str) = set_reg e rd (get_reg e src)"
    and "CHR ''#'' \<in> set op_str \<and> py_int 0 (filter (\<lambda>c. c \<noteq> CHR ''#'') src) = Some k \<longrightarrow>
           fst (execute e mnemonic op_str) =
             (if 0 \<le> k \<and> k \<le> 0xFFFF then set_reg e rd k else e)"
  using assms
  by (auto simp: execute_def execute_try_def exec_mov_reg_def exec_mov_imm_def Let_def)

lemma regs_execute:
  "regs (fst (execute e mnemonic op_str)) r = regs e r \<or>
   (\<exists>v. regs (fst (execute e mnemonic op_str)) r = Some v \<and> 0 \<le> v \<and> v < 2 ^ 64)"
proof -
  have s: "regs (set_reg e rd x) r = regs e r \<or>
           (\<exists>v. regs (set_reg e rd x) r = Some v \<and> 0 \<le> v \<and> v < 2 ^ 64)" for rd x
  proof -
    have a: "0 \<le> x mod 2 ^ 64 \<and> x mod 2 ^ 64 < (2 ^ 64 :: int)" by simp
    have "x mod 2 ^ 64 mod 2 ^ 32 < (2 ^ 32 :: int)" by simp
    then have b: "0 \<le> x mod 2 ^ 64 mod 2 ^ 32 \<and> x mod 2 ^ 64 mod 2 ^ 32 < (2 ^ 64 :: int)"
      by simp
    show ?thesis
      using a b unfolding set_reg_def Let_def and_mask64 and_mask32 by auto
  qed
  from execute_writes [of e mnemonic op_str] show ?thesis
  proof
    assume "fst (execute e mnemonic op_str) = e"
    then show ?thesis by simp
  next
    assume "\<exists>x. fst (execute e mnemonic op_str) =
                 set_reg e (strip (hd (split_on CHR '','' op_str))) x"
    then obtain x where
      "fst (execute e mnemonic op_str) = set_reg e (strip (hd (split_on CHR '','' op_str))) x" ..
    with s show ?thesis by simp
  qed
qed

text \<open>
  Claim C6. Every arithmetic result of \<open>execute\<close> is the exact sum or difference
  reduced modulo \<open>2^64\<close>: for \<open>ADD\<close> and \<open>SUB\<close>, with an immediate or with a
  register, the destination is set to \<open>(a + b) mod 2^64\<close> or \<open>(a - b) mod 2^64\<close> and
  the narrative shows that value, for all operands and register contents, with no
  failure on overflow. The logical instructions and \<open>MOV\<close> write through the same
  \<open>set_reg\<close>, which stores a value modulo \<open>2^64\<close> (modulo \<open>2^32\<close> through a \<open>W\<close>
  name), so that after \<open>execute\<close> every register slot is as before or holds a value
  in \<open>[0, 2^64)\<close>. With \<open>X0\<close> set to \<open>0xFFFFFFFFFFFFFFFF\<close>, \<open>ADD X0, X0, #1\<close>
  leaves 0 in \<open>X0\<close>.
\<close>

theorem execute_results_64bit:
  "(map strip (split_on CHR '','' op_str) = [rd, rn, rm] \<longrightarrow>
      (upper mnemonic = ''ADD'' \<and> CHR ''#'' \<in> set op_str \<and>
       py_int 0 (filter (\<lambda>c. c \<noteq> CHR ''#'') rm) = Some k \<longrightarrow>
         execute e mnemonic op_str =
           (set_reg e rd ((get_reg e rn + k) mod 2 ^ 64),
            ''; '' @ rd @ '' = '' @ rn @ '' + '' @ rm @ '' = '' @ fmt_hex (get_reg e rn) @
            '' + '' @ fmt_hex k @ '' = '' @ fmt_hex ((get_reg e rn + k) mod 2 ^ 64))) \<and>
      (upper mnemonic = ''ADD'' \<and> CHR ''#'' \<notin> set op_str \<longrightarrow>
         execute e mnemonic op_str =
           (set_reg e rd ((get_reg e rn + get_reg e rm) mod 2 ^ 64),
            ''; '' @ rd @ '' = '' @ rn @ '' + '' @ rm @ '' = '' @ fmt_hex (get_reg e rn) @
            '' + '' @ fmt_hex (get_reg e rm) @ '' = '' @
            fmt_hex ((get_reg e rn + get_reg e rm) mod 2 ^ 64))) \<and>
      (upper mnemonic = ''SUB'' \<and> CHR ''#'' \<in> set op_str \<and>
       py_int 0 (filter (\<lambda>c. c \<noteq> CHR ''#'') rm) = Some k \<longrightarrow>
         execute e mnemonic op_str =
           (set_reg e rd ((get_reg e rn - k) mod 2 ^ 64),
            ''; '' @ rd @ '' = '' @ rn @ '' - '' @ rm @ '' = '' @ fmt_hex (get_reg e rn) @
            '' - '' @ fmt_hex k @ '' = '' @ fmt_hex ((get_reg e rn - k) mod 2 ^ 64))) \<and>
      (upper mnemonic = ''SUB'' \<and> CHR ''#'' \<notin> set op_str \<longrightarrow>
         execute e mnemonic op_str =
           (set_reg e rd ((get_reg e rn - get_reg e rm) mod 2 ^ 64),
            ''; '' @ rd @ '' = '' @ rn @ '' - '' @ rm @ '' = '' @ fmt_hex (get_reg e rn) @
            '' - '' @ fmt_hex (get_reg e rm) @ '' = '' @
            fmt_hex ((get_reg e rn - get_reg e rm) mod 2 ^ 64))) \<and>
      (upper mnemonic = ''AND'' \<and> CHR ''#'' \<notin> set op_str \<longrightarrow>
         fst (execute e mnemonic op_str) = set_reg e rd (get_reg e rn AND get_reg e rm)) \<and>
      (upper mnemonic = ''ORR'' \<and> CHR ''#'' \<notin> set op_str \<longrightarrow>
         fst (execute e mnemonic op_str) = set_reg e rd (get_reg e rn OR get_reg e rm)) \<and>
      (upper mnemonic = ''EOR'' \<and> CHR ''#'' \<notin> set op_str \<longrightarrow>
         fst (execute e mnemonic op_str) = set_reg e rd (get_reg e rn XOR get_reg e rm))) \<and>
   (map strip (split_on CHR '','' op_str) = [rd, rn] \<and> upper mnemonic = ''MOV'' \<longrightarrow>
      (CHR ''#'' \<notin> set op_str \<longrightarrow>
         fst (execute e mnemonic op_str) = set_reg e rd (get_reg e rn)) \<and>
      (CHR ''#'' \<in> set op_str \<and> py_int 0 (filter (\<lambda>c. c \<noteq> CHR ''#'') rn) = Some k \<and>
       0 \<le> k \<and> k \<le> 0xFFFF \<longrightarrow>
         fst (execute e mnemonic op_str) = set_reg e rd k)) \<and>
   (startswith (upper rd) ''X'' \<and> upper rd \<noteq> ''XZR'' \<longrightarrow>
      get_reg (set_reg e rd v) rd = v mod 2 ^ 64) \<and>
   (startswith (upper rd) ''W'' \<and> upper rd \<noteq> ''WZR'' \<longrightarrow>
      get_reg (set_reg e rd v) rd = v mod 2 ^ 32) \<and>
   (\<forall>r. regs (fst (execute e mnemonic op_str)) r = regs e r \<or>
        (\<exists>x. regs (fst (execute e mnemonic op_str)) r = Some x \<and> 0 \<le> x \<and> x < 2 ^ 64)) \<and>
   get_reg (fst (execute (set_reg Emulator_init ''X0'' 0xFFFFFFFFFFFFFFFF) ''ADD'' ''X0, X0, #1''))
     ''X0'' = 0"
proof (intro conjI impI allI)
  assume p: "map strip (split_on CHR '','' op_str) = [rd, rn, rm]"
  {
    assume a: "upper mnemonic = ''ADD'' \<and> CHR ''#'' \<in> set op_str \<and>
               py_int 0 (filter (\<lambda>c. c \<noteq> CHR ''#'') rm) = Some k"
    from execute_arith_imm [of mnemonic "(+)" "''+''" op_str rd rn rm k e] a p
    show "execute e mnemonic op_str =
           (set_reg e rd ((get_reg e rn + k) mod 2 ^ 64),
            ''; '' @ rd @ '' = '' @ rn @ '' + '' @ rm @ '' = '' @ fmt_hex (get_reg e rn) @
            '' + '' @ fmt_hex k @ '' = '' @ fmt_hex ((get_reg e rn + k) mod 2 ^ 64))"
      by simp
  next
    assume a: "upper mnemonic = ''ADD'' \<and> CHR ''#'' \<notin> set op_str"
    from execute_arith_reg [of mnemonic "(+)" "''+''" op_str rd rn rm e] a p
    show "execute e mnemonic op_str =
           (set_reg e rd ((get_reg e rn + get_reg e rm) mod 2 ^ 64),
            ''; '' @ rd @ '' = '' @ rn @ '' + '' @ rm @ '' = '' @ fmt_hex (get_reg e rn) @
            '' + '' @ fmt_hex (get_reg e rm) @ '' = '' @
            fmt_hex ((get_reg e rn + get_reg e rm) mod 2 ^ 64))"
      by simp
  next
    assume a: "upper mnemonic = ''SUB'' \<and> CHR ''#'' \<in> set op_str \<and>
               py_int 0 (filter (\<lambda>c. c \<noteq> CHR ''#'') rm) = Some k"
    from execute_arith_imm [of mnemonic "(-)" "''-''" op_str rd rn rm k e] a p
    show "execute e mnemonic op_str =
           (set_reg e rd ((get_reg e rn - k) mod 2 ^ 64),
            ''; '' @ rd @ '' = '' @ rn @ '' - '' @ rm @ '' = '' @ fmt_hex (get_reg e rn) @
            '' - '' @ fmt_hex k @ '' = '' @ fmt_hex ((get_reg e rn - k) mod 2 ^ 64))"
      by simp
  next
    assume a: "upper mnemonic = ''SUB'' \<and> CHR ''#'' \<notin> set op_str"
    from execute_arith_reg [of mnemonic "(-)" "''-''" op_str rd rn rm e] a p
    show "execute e mnemonic op_str =
           (set_reg e rd ((get_reg e rn - get_reg e rm) mod 2 ^ 64),
            ''; '' @ rd @ '' = '' @ rn @ '' - '' @ rm @ '' = '' @ fmt_hex (get_reg e rn) @
            '' - '' @ fmt_hex (get_reg e rm) @ '' = '' @
            fmt_hex ((get_reg e rn - get_reg e rm) mod 2 ^ 64))"
      by simp
  next
    assume a: "upper mnemonic = ''AND'' \<and> CHR ''#'' \<notin> set op_str"
    from execute_logic_reg [of mnemonic "(AND)" op_str rd rn rm e] a p
    show "fst (execute e mnemonic op_str) = set_reg e rd (get_reg e rn AND get_reg e rm)"
      by simp
  next
    assume a: "upper mnemonic = ''ORR'' \<and> CHR ''#'' \<notin> set op_str"
    from execute_logic_reg [of mnemonic "(OR)" op_str rd rn rm e] a p
    show "fst (execute e mnemonic op_str) = set_reg e rd (get_reg e rn OR get_reg e rm)"
      by simp
  next
    assume a: "upper mnemonic = ''EOR'' \<and> CHR ''#'' \<notin> set op_str"
    from execute_logic_reg [of mnemonic "(XOR)" op_str rd rn rm e] a p
    show "fst (execute e mnemonic op_str) = set_reg e rd (get_reg e rn XOR get_reg e rm)"
      by simp
  }
next
  assume m: "map strip (split_on CHR '','' op_str) = [rd, rn] \<and> upper mnemonic = ''MOV''"
  {
    assume "CHR ''#'' \<notin> set op_str"
    with execute_mov(1) [of mnemonic op_str rd rn e] m
    show "fst (execute e mnemonic op_str) = set_reg e rd (get_reg e rn)"
      by simp
  next
    assume a: "CHR ''#'' \<in> set op_str \<and> py_int 0 (filter (\<lambda>c. c \<noteq> CHR ''#'') rn) = Some k \<and>
               0 \<le> k \<and> k \<le> 0xFFFF"
    with execute_mov(2) [of mnemonic op_str rd rn k e] m
    show "fst (execute e mnemonic op_str) = set_reg e rd k"
      by simp
  }
next
  assume "startswith (upper rd) ''X'' \<and> upper rd \<noteq> ''XZR''"
  then show "get_reg (set_reg e rd v) rd = v mod 2 ^ 64"
    by (simp add: get_set_reg_X)
next
  assume "startswith (upper rd) ''W'' \<and> upper rd \<noteq> ''WZR''"
  then show "get_reg (set_reg e rd v) rd = v mod 2 ^ 32"
    unfolding get_reg_def set_reg_def Let_def and_mask64 and_mask32
    by (auto simp: regs_get_def startswith_def mod_mod_cancel)
next
  fix r
  show "regs (fst (execute e mnemonic op_str)) r = regs e r \<or>
        (\<exists>x. regs (fst (execute e mnemonic op_str)) r = Some x \<and> 0 \<le> x \<and> x < 2 ^ 64)"
    by (rule regs_execute)
next
  show "get_reg (fst (execute (set_reg Emulator_init ''X0'' 0xFFFFFFFFFFFFFFFF)
                        ''ADD'' ''X0, X0, #1'')) ''X0'' = 0"
    by (rule add_max)
qed

theorem execute_results_64bit_witness:
  "execute (set_reg Emulator_init ''X0'' 0xFFFFFFFFFFFFFFFF) ''add'' ''X2, X0, #2'' =
     (set_reg (set_reg Emulator_init ''X0'' 0xFFFFFFFFFFFFFFFF) ''X2'' 1,
      ''; X2 = X0 + #2 = 0xffffffffffffffff + 0x2 = 0x1'') \<and>
   fst (execute (set_reg Emulator_init ''X0'' 0xFFFFFFFFFFFFFFFF) ''SUB'' ''X1, xzr, X0'') =
     set_reg (set_reg Emulator_init ''X0'' 0xFFFFFFFFFFFFFFFF) ''X1'' 1 \<and>
   fst (execute Emulator_init ''MOV'' ''X3, #9'') = set_reg Emulator_init ''X3'' 9 \<and>
   get_reg (set_reg Emulator_init ''x5'' (2 ^ 64 + 7)) ''x5'' = 7 \<and>
   get_reg (set_reg Emulator_init ''w5'' (2 ^ 32 + 7)) ''w5'' = 7"
proof -
  let ?e = "set_reg Emulator_init ''X0'' 0xFFFFFFFFFFFFFFFF"
  have x0: "get_reg ?e ''X0'' = 0xFFFFFFFFFFFFFFFF"
    using upper_X0 by (simp add: get_set_reg_X)
  have zr: "get_reg ?e ''xzr'' = 0"
    by (simp add: get_reg_def upper_def upper_char_def)
  have p1: "map strip (split_on CHR '','' ''X2, X0, #2'') = [''X2'', ''X0'', ''#2'']"
    by (simp add: strip_def is_space_def)
  have h1: "upper ''add'' = ''ADD'' \<and> CHR ''#'' \<in> set ''X2, X0, #2'' \<and>
            py_int 0 (filter (\<lambda>c. c \<noteq> CHR ''#'') ''#2'') = Some 2"
    by (simp add: upper_def upper_char_def py_int_def is_c_space_def digit_value_def)
  from execute_results_64bit [where op_str = "''X2, X0, #2''" and rd = "''X2''" and rn = "''X0''"
         and rm = "''#2''" and mnemonic = "''add''" and k = 2 and e = ?e,
         THEN conjunct1, THEN mp, OF p1, THEN conjunct1, THEN mp, OF h1]
  have "execute ?e ''add'' ''X2, X0, #2'' =
           (set_reg ?e ''X2'' ((get_reg ?e ''X0'' + 2) mod 2 ^ 64),
            ''; '' @ ''X2'' @ '' = '' @ ''X0'' @ '' + '' @ ''#2'' @ '' = '' @
            fmt_hex (get_reg ?e ''X0'') @ '' + '' @ fmt_hex 2 @ '' = '' @
            fmt_hex ((get_reg ?e ''X0'' + 2) mod 2 ^ 64))"
    .
  then have 1: "execute ?e ''add'' ''X2, X0, #2'' =
     (set_reg ?e ''X2'' 1, ''; X2 = X0 + #2 = 0xffffffffffffffff + 0x2 = 0x1'')"
    by (simp add: x0 fmt_hex_def)
  have p2: "map strip (split_on CHR '','' ''X1, xzr, X0'') = [''X1'', ''xzr'', ''X0'']"
    by (simp add: strip_def is_space_def)
  have h2: "upper ''SUB'' = ''SUB'' \<and> CHR ''#'' \<notin> set ''X1, xzr, X0''"
    by (simp add: upper_def upper_char_def)
  from execute_results_64bit [where op_str = "''X1, xzr, X0''" and rd = "''X1''" and rn = "''xzr''"
         and rm = "''X0''" and mnemonic = "''SUB''" and e = ?e,
         THEN conjunct1, THEN mp, OF p2, THEN conjunct2, THEN conjunct2, THEN conjunct2,
         THEN conjunct1, THEN mp, OF h2]
  have "execute ?e ''SUB'' ''X1, xzr, X0'' =
           (set_reg ?e ''X1'' ((get_reg ?e ''xzr'' - get_reg ?e ''X0'') mod 2 ^ 64),
            ''; '' @ ''X1'' @ '' = '' @ ''xzr'' @ '' - '' @ ''X0'' @ '' = '' @
            fmt_hex (get_reg ?e ''xzr'') @ '' - '' @ fmt_hex (get_reg ?e ''X0'') @ '' = '' @
            fmt_hex ((get_reg ?e ''xzr'' - get_reg ?e ''X0'') mod 2 ^ 64))"
    .
  then have 2: "fst (execute ?e ''SUB'' ''X1, xzr, X0'') = set_reg ?e ''X1'' 1"
    by (simp add: x0 zr)
  have p3: "map strip (split_on CHR '','' ''X3, #9'') = [''X3'', ''#9''] \<and> upper ''MOV'' = ''MOV''"
    by (simp add: strip_def is_space_def upper_def upper_char_def)
  have h3: "CHR ''#'' \<in> set ''X3, #9'' \<and>
            py_int 0 (filter (\<lambda>c. c \<noteq> CHR ''#'') ''#9'') = Some 9 \<and> (0::int) \<le> 9 \<and> (9::int) \<le> 0xFFFF"
    by (simp add: py_int_def is_c_space_def digit_value_def)
  from execute_results_64bit [where op_str = "''X3, #9''" and rd = "''X3''" and rn = "''#9''"
         and mnemonic = "''MOV''" and k = 9 and e = Emulator_init,
         THEN conjunct2, THEN conjunct1, THEN mp, OF p3, THEN conjunct2, THEN mp, OF h3]
  have 3: "fst (execute Emulator_init ''MOV'' ''X3, #9'') = set_reg Emulator_init ''X3'' 9"
    .
  have h4: "startswith (upper ''x5'') ''X'' \<and> upper ''x5'' \<noteq> ''XZR''"
    by (simp add: startswith_def upper_def upper_char_def)
  from execute_results_64bit [where rd = "''x5''" and e = Emulator_init and v = "2 ^ 64 + 7",
         THEN conjunct2, THEN conjunct2, THEN conjunct1, THEN mp, OF h4]
  have "get_reg (set_reg Emulator_init ''x5'' (2 ^ 64 + 7)) ''x5'' = (2 ^ 64 + 7) mod 2 ^ 64"
    .
  then have 4: "get_reg (set_reg Emulator_init ''x5'' (2 ^ 64 + 7)) ''x5'' = 7"
    by simp
  have h5: "startswith (upper ''w5'') ''W'' \<and> upper ''w5'' \<noteq> ''WZR''"
    by (simp add: startswith_def upper_def upper_char_def)
  from execute_results_64bit [where rd = "''w5''" and e = Emulator_init and v = "2 ^ 32 + 7",
         THEN conjunct2, THEN conjunct2, THEN conjunct2, THEN conjunct1, THEN mp, OF h5]
  have "get_reg (set_reg Emulator_init ''w5'' (2 ^ 32 + 7)) ''w5'' = (2 ^ 32 + 7) mod 2 ^ 32"
    .
  then have 5: "get_reg (set_reg Emulator_init ''w5'' (2 ^ 32 + 7)) ''w5'' = 7"
    by simp
  from 1 2 3 4 5 show ?thesis by blast
qed

text \<open>
  Claim C7. When the destination (the first operand) is \<open>XZR\<close> or \<open>WZR\<close>, in any
  letter case, \<open>execute\<close> leaves the emulator, so every register slot, as it was,
  whatever the mnemonic and the other operands are; reading \<open>XZR\<close> or \<open>WZR\<close> gives 0.
\<close>

theorem execute_zero_register_destination:
  "(upper (strip (hd (split_on CHR '','' op_str))) = ''XZR'' \<or>
    upper (strip (hd (split_on CHR '','' op_str))) = ''WZR''
      \<longrightarrow> fst (execute e mnemonic op_str) = e) \<and>
   (upper r = ''XZR'' \<or> upper r = ''WZR'' \<longrightarrow> get_reg e r = 0)"
proof (intro conjI impI)
  assume z: "upper (strip (hd (split_on CHR '','' op_str))) = ''XZR'' \<or>
             upper (strip (hd (split_on CHR '','' op_str))) = ''WZR''"
  from execute_writes [of e mnemonic op_str] z
  show "fst (execute e mnemonic op_str) = e"
    by (auto simp: set_reg_zero_register)
next
  assume "upper r = ''XZR'' \<or> upper r = ''WZR''"
  then show "get_reg e r = 0"
    by (auto simp: get_reg_def Let_def)
qed

theorem execute_zero_register_destination_witness:
  "fst (execute (set_reg Emulator_init ''X1'' 5) ''ADD'' ''xzr, X1, #7'') =
     set_reg Emulator_init ''X1'' 5 \<and>
   get_reg (set_reg Emulator_init ''X1'' 5) ''wzr'' = 0"
proof -
  have d: "upper (strip (hd (split_on CHR '','' ''xzr, X1, #7''))) = ''XZR''"
    by (simp add: strip_def is_space_def upper_def upper_char_def)
  have r: "upper ''wzr'' = ''WZR''"
    by (simp add: upper_def upper_char_def)
  from execute_zero_register_destination
         [of "''xzr, X1, #7''" "set_reg Emulator_init ''X1'' 5" "''ADD''" "''wzr''"] d r
  show ?thesis by simp
qed

lemma exec_arith_imm_result:
  "(case exec_arith_imm e f opsym ps of Inl exn \<Rightarrow> (e, '''') | Inr r \<Rightarrow> r) = (e', n) \<Longrightarrow>
   (n = '''' \<longleftrightarrow> \<not> (length ps = 3 \<and> py_int 0 (filter (\<lambda>c. c \<noteq> CHR ''#'') (last ps)) \<noteq> None)) \<and>
   (n = '''' \<longrightarrow> e' = e)"
  unfolding exec_arith_imm_def Let_def
  by (auto split: list.splits option.splits)

lemma exec_arith_reg_result:
  "(case exec_arith_reg e f opsym ps of Inl exn \<Rightarrow> (e, '''') | Inr r \<Rightarrow> r) = (e', n) \<Longrightarrow>
   (n = '''' \<longleftrightarrow> length ps \<noteq> 3) \<and> (n = '''' \<longrightarrow> e' = e)"
  unfolding exec_arith_reg_def Let_def
  by (auto split: list.splits)

lemma exec_logic_reg_result:
  "(case exec_logic_reg e f opsym ps of Inl exn \<Rightarrow> (e, '''') | Inr r \<Rightarrow> r) = (e', n) \<Longrightarrow>
   (n = '''' \<longleftrightarrow> length ps \<noteq> 3) \<and> (n = '''' \<longrightarrow> e' = e)"
  unfolding exec_logic_reg_def Let_def
  by (auto split: list.splits)

lemma exec_mov_imm_result:
  "(case exec_mov_imm e ps of Inl exn \<Rightarrow> (e, '''') | Inr r \<Rightarrow> r) = (e', n) \<Longrightarrow>
   (n = '''' \<longleftrightarrow> \<not> (length ps = 2 \<and> py_int 0 (filter (\<lambda>c. c \<noteq> CHR ''#'') (last ps)) \<noteq> None)) \<and>
   (n = '''' \<longrightarrow> e' = e)"
  unfolding exec_mov_imm_def Let_def
  by (auto split: list.splits option.splits if_splits)

lemma exec_mov_reg_result:
  "(case exec_mov_reg e ps of Inl exn \<Rightarrow> (e, '''') | Inr r \<Rightarrow> r) = (e', n) \<Longrightarrow>
   (n = '''' \<longleftrightarrow> length ps \<noteq> 2) \<and> (n = '''' \<longrightarrow> e' = e)"
  unfolding exec_mov_reg_def Let_def
  by (auto split: list.splits)

text \<open>
  Claim C8, as amended. \<open>execute\<close> is total on every pair of texts, every operation of
  its body that can raise being a branch of \<open>execute_try\<close> that \<open>execute\<close> answers
  with the unchanged registers and the empty narrative. The narrative is empty exactly
  when the mnemonic is none of \<open>ADD\<close>, \<open>SUB\<close>, \<open>MOV\<close>, \<open>AND\<close>, \<open>ORR\<close>,
  \<open>EOR\<close> (in any letter case), or the number of operands is not 3 (2 for \<open>MOV\<close>), or
  a logical instruction's operand text contains \<open>#\<close>, or the operand text of \<open>ADD\<close>,
  \<open>SUB\<close> or \<open>MOV\<close> contains \<open>#\<close> and \<open>int\<close> rejects the last operand; the registers
  are then unchanged. The operands are not checked otherwise: every other text gets a
  narrative.
\<close>

theorem execute_narrative_empty_iff:
  "(snd (execute e mnemonic op_str) = '''' \<longleftrightarrow>
      \<not> ((upper mnemonic = ''ADD'' \<or> upper mnemonic = ''SUB'') \<and>
          length (split_on CHR '','' op_str) = 3 \<and>
          (CHR ''#'' \<in> set op_str \<longrightarrow>
             py_int 0 (filter (\<lambda>c. c \<noteq> CHR ''#'') (strip (last (split_on CHR '','' op_str))))
               \<noteq> None) \<or>
         upper mnemonic = ''MOV'' \<and> length (split_on CHR '','' op_str) = 2 \<and>
          (CHR ''#'' \<in> set op_str \<longrightarrow>
             py_int 0 (filter (\<lambda>c. c \<noteq> CHR ''#'') (strip (last (split_on CHR '','' op_str))))
               \<noteq> None) \<or>
         (upper mnemonic = ''AND'' \<or> upper mnemonic = ''ORR'' \<or> upper mnemonic = ''EOR'') \<and>
          CHR ''#'' \<notin> set op_str \<and> length (split_on CHR '','' op_str) = 3)) \<and>
   (snd (execute e mnemonic op_str) = '''' \<longrightarrow> fst (execute e mnemonic op_str) = e) \<and>
   (execute_try e mnemonic op_str = Inl exn \<longrightarrow> execute e mnemonic op_str = (e, ''''))"
proof -
  let ?ps = "map strip (split_on CHR '','' op_str)"
  let ?imm = "py_int 0 (filter (\<lambda>c. c \<noteq> CHR ''#'') (strip (last (split_on CHR '','' op_str))))"
  have ne: "split_on CHR '','' op_str \<noteq> []"
    by (cases op_str) (auto split: list.splits)
  have l: "last ?ps = strip (last (split_on CHR '','' op_str))"
    using ne by (simp add: last_map)
  have len: "length ?ps = length (split_on CHR '','' op_str)"
    by simp
  obtain e' n where r: "execute e mnemonic op_str = (e', n)"
    by (cases "execute e mnemonic op_str")
  note res = exec_arith_imm_result exec_arith_reg_result exec_logic_reg_result
    exec_mov_imm_result exec_mov_reg_result
  have c: "(n = '''' \<longleftrightarrow>
      \<not> ((upper mnemonic = ''ADD'' \<or> upper mnemonic = ''SUB'') \<and>
          length (split_on CHR '','' op_str) = 3 \<and> (CHR ''#'' \<in> set op_str \<longrightarrow> ?imm \<noteq> None) \<or>
         upper mnemonic = ''MOV'' \<and> length (split_on CHR '','' op_str) = 2 \<and>
          (CHR ''#'' \<in> set op_str \<longrightarrow> ?imm \<noteq> None) \<or>
         (upper mnemonic = ''AND'' \<or> upper mnemonic = ''ORR'' \<or> upper mnemonic = ''EOR'') \<and>
          CHR ''#'' \<notin> set op_str \<and> length (split_on CHR '','' op_str) = 3)) \<and>
     (n = '''' \<longrightarrow> e' = e)"
  proof -
    consider
        (add_imm) "upper mnemonic = ''ADD''" "CHR ''#'' \<in> set op_str"
      | (add_reg) "upper mnemonic = ''ADD''" "CHR ''#'' \<notin> set op_str" "length ?ps = 3"
      | (sub_imm) "upper mnemonic = ''SUB''" "CHR ''#'' \<in> set op_str"
      | (sub_reg) "upper mnemonic = ''SUB''" "CHR ''#'' \<notin> set op_str" "length ?ps = 3"
      | (mov_imm) "upper mnemonic = ''MOV''" "CHR ''#'' \<in> set op_str"
      | (mov_reg) "upper mnemonic = ''MOV''" "CHR ''#'' \<notin> set op_str" "length ?ps = 2"
      | (log_and) "upper mnemonic = ''AND''" "CHR ''#'' \<notin> set op_str"
      | (log_orr) "upper mnemonic = ''ORR''" "CHR ''#'' \<notin> set op_str"
      | (log_eor) "upper mnemonic = ''EOR''" "CHR ''#'' \<notin> set op_str"
      | (none) "execute_try e mnemonic op_str = Inr (e, '''')"
          "\<not> ((upper mnemonic = ''ADD'' \<or> upper mnemonic = ''SUB'') \<and> length ?ps = 3)"
          "\<not> (upper mnemonic = ''MOV'' \<and> length ?ps = 2)"
          "\<not> ((upper mnemonic = ''AND'' \<or> upper mnemonic = ''ORR'' \<or> upper mnemonic = ''EOR'')
              \<and> CHR ''#'' \<notin> set op_str)"
          "(upper mnemonic = ''ADD'' \<or> upper mnemonic = ''SUB'' \<or> upper mnemonic = ''MOV'')
             \<longrightarrow> CHR ''#'' \<notin> set op_str"
      unfolding execute_try_def Let_def by fastforce
    then show ?thesis
    proof cases
      case add_imm
      then have "(case exec_arith_imm e (+) ''+'' ?ps of Inl exn \<Rightarrow> (e, '''') | Inr r \<Rightarrow> r) = (e', n)"
        using r by (simp add: execute_def execute_try_def Let_def split: sum.splits prod.splits)
      from res(1) [OF this] add_imm show ?thesis
        unfolding l len by auto
    next
      case add_reg
      then have "(case exec_arith_reg e (+) ''+'' ?ps of Inl exn \<Rightarrow> (e, '''') | Inr r \<Rightarrow> r) = (e', n)"
        using r by (simp add: execute_def execute_try_def Let_def split: sum.splits prod.splits)
      from res(2) [OF this] add_reg show ?thesis
        unfolding l len by auto
    next
      case sub_imm
      then have "(case exec_arith_imm e (-) ''-'' ?ps of Inl exn \<Rightarrow> (e, '''') | Inr r \<Rightarrow> r) = (e', n)"
        using r by (simp add: execute_def execute_try_def Let_def split: sum.splits prod.splits)
      from res(1) [OF this] sub_imm show ?thesis
        unfolding l len by auto
    next
      case sub_reg
      then have "(case exec_arith_reg e (-) ''-'' ?ps of Inl exn \<Rightarrow> (e, '''') | Inr r \<Rightarrow> r) = (e', n)"
        using r by (simp add: execute_def execute_try_def Let_def split: sum.splits prod.splits)
      from res(2) [OF this] sub_reg show ?thesis
        unfolding l len by auto
    next
      case mov_imm
      then have "(case exec_mov_imm e ?ps of Inl exn \<Rightarrow> (e, '''') | Inr r \<Rightarrow> r) = (e', n)"
        using r by (simp add: execute_def execute_try_def Let_def split: sum.splits prod.splits)
      from res(4) [OF this] mov_imm show ?thesis
        unfolding l len by auto
    next
      case mov_reg
      then have "(case exec_mov_reg e ?ps of Inl exn \<Rightarrow> (e, '''') | Inr r \<Rightarrow> r) = (e', n)"
        using r by (simp add: execute_def execute_try_def Let_def split: sum.splits prod.splits)
      from res(5) [OF this] mov_reg show ?thesis
        unfolding l len by auto
    next
      case log_and
      then have "(case exec_logic_reg e (AND) ''&'' ?ps of Inl exn \<Rightarrow> (e, '''') | Inr r \<Rightarrow> r) = (e', n)"
        using r by (simp add: execute_def execute_try_def Let_def split: sum.splits prod.splits)
      from res(3) [OF this] log_and show ?thesis
        unfolding l len by auto
    next
      case log_orr
      then have "(case exec_logic_reg e (OR) ''|'' ?ps of Inl exn \<Rightarrow> (e, '''') | Inr r \<Rightarrow> r) = (e', n)"
        using r by (simp add: execute_def execute_try_def Let_def split: sum.splits prod.splits)
      from res(3) [OF this] log_orr show ?thesis
        unfolding l len by auto
    next
      case log_eor
      then have "(case exec_logic_reg e (XOR) ''^'' ?ps of Inl exn \<Rightarrow> (e, '''') | Inr r \<Rightarrow> r) = (e', n)"
        using r by (simp add: execute_def execute_try_def Let_def split: sum.splits prod.splits)
      from res(3) [OF this] log_eor show ?thesis
        unfolding l len by auto
    next
      case none
      from none(1) r have "e' = e" "n = ''''"
        by (simp_all add: execute_def)
      with none(2-5) show ?thesis
        unfolding len by auto
    qed
  qed
  have i: "execute_try e mnemonic op_str = Inl exn \<longrightarrow> execute e mnemonic op_str = (e, '''')"
    by (simp add: execute_def)
  from c i show ?thesis
    unfolding r by simp
qed

theorem execute_narrative_empty_iff_witness:
  "execute Emulator_init ''ldr'' ''x0, [x1]'' = (Emulator_init, '''') \<and>
   execute Emulator_init ''AND'' ''X0, X1, #3'' = (Emulator_init, '''') \<and>
   execute Emulator_init ''SUB'' ''X0, X1, #zz'' = (Emulator_init, '''') \<and>
   snd (execute Emulator_init ''MOV'' ''X0, X1'') \<noteq> ''''"
proof -
  have a: "\<not> ((upper ''ldr'' = ''ADD'' \<or> upper ''ldr'' = ''SUB'') \<and>
          length (split_on CHR '','' ''x0, [x1]'') = 3 \<and>
          (CHR ''#'' \<in> set ''x0, [x1]'' \<longrightarrow>
             py_int 0 (filter (\<lambda>c. c \<noteq> CHR ''#'') (strip (last (split_on CHR '','' ''x0, [x1]''))))
               \<noteq> None) \<or>
         upper ''ldr'' = ''MOV'' \<and> length (split_on CHR '','' ''x0, [x1]'') = 2 \<and>
          (CHR ''#'' \<in> set ''x0, [x1]'' \<longrightarrow>
             py_int 0 (filter (\<lambda>c. c \<noteq> CHR ''#'') (strip (last (split_on CHR '','' ''x0, [x1]''))))
               \<noteq> None) \<or>
         (upper ''ldr'' = ''AND'' \<or> upper ''ldr'' = ''ORR'' \<or> upper ''ldr'' = ''EOR'') \<and>
          CHR ''#'' \<notin> set ''x0, [x1]'' \<and> length (split_on CHR '','' ''x0, [x1]'') = 3)"
    by (simp add: upper_def upper_char_def)
  note t1 = execute_narrative_empty_iff [of Emulator_init "''ldr''" "''x0, [x1]''"]
  from t1 [THEN conjunct1, THEN iffD2, OF a]
  have n1: "snd (execute Emulator_init ''ldr'' ''x0, [x1]'') = ''''" .
  from t1 [THEN conjunct2, THEN conjunct1, THEN mp, OF n1] n1
  have 1: "execute Emulator_init ''ldr'' ''x0, [x1]'' = (Emulator_init, '''')"
    by (simp add: prod_eq_iff)
  have b: "\<not> ((upper ''AND'' = ''ADD'' \<or> upper ''AND'' = ''SUB'') \<and>
          length (split_on CHR '','' ''X0, X1, #3'') = 3 \<and>
          (CHR ''#'' \<in> set ''X0, X1, #3'' \<longrightarrow>
             py_int 0 (filter (\<lambda>c. c \<noteq> CHR ''#'') (strip (last (split_on CHR '','' ''X0, X1, #3''))))
               \<noteq> None) \<or>
         upper ''AND'' = ''MOV'' \<and> length (split_on CHR '','' ''X0, X1, #3'') = 2 \<and>
          (CHR ''#'' \<in> set ''X0, X1, #3'' \<longrightarrow>
             py_int 0 (filter (\<lambda>c. c \<noteq> CHR ''#'') (strip (last (split_on CHR '','' ''X0, X1, #3''))))
               \<noteq> None) \<or>
         (upper ''AND'' = ''AND'' \<or> upper ''AND'' = ''ORR'' \<or> upper ''AND'' = ''EOR'') \<and>
          CHR ''#'' \<notin> set ''X0, X1, #3'' \<and> length (split_on CHR '','' ''X0, X1, #3'') = 3)"
    by (simp add: upper_def upper_char_def)
  note t2 = execute_narrative_empty_iff [of Emulator_init "''AND''" "''X0, X1, #3''"]
  from t2 [THEN conjunct1, THEN iffD2, OF b]
  have n2: "snd (execute Emulator_init ''AND'' ''X0, X1, #3'') = ''''" .
  from t2 [THEN conjunct2, THEN conjunct1, THEN mp, OF n2] n2
  have 2: "execute Emulator_init ''AND'' ''X0, X1, #3'' = (Emulator_init, '''')"
    by (simp add: prod_eq_iff)
  have c: "execute_try Emulator_init ''SUB'' ''X0, X1, #zz'' = Inl ValueError"
    by (simp add: execute_try_def exec_arith_imm_def upper_def upper_char_def strip_def
        is_space_def py_int_def is_c_space_def digit_value_def)
  from execute_narrative_empty_iff [of Emulator_init "''SUB''" "''X0, X1, #zz''" ValueError,
         THEN conjunct2, THEN conjunct2, THEN mp, OF c]
  have 3: "execute Emulator_init ''SUB'' ''X0, X1, #zz'' = (Emulator_init, '''')" .
  have d: "(upper ''MOV'' = ''ADD'' \<or> upper ''MOV'' = ''SUB'') \<and>
          length (split_on CHR '','' ''X0, X1'') = 3 \<and>
          (CHR ''#'' \<in> set ''X0, X1'' \<longrightarrow>
             py_int 0 (filter (\<lambda>c. c \<noteq> CHR ''#'') (strip (last (split_on CHR '','' ''X0, X1''))))
               \<noteq> None) \<or>
         upper ''MOV'' = ''MOV'' \<and> length (split_on CHR '','' ''X0, X1'') = 2 \<and>
          (CHR ''#'' \<in> set ''X0, X1'' \<longrightarrow>
             py_int 0 (filter (\<lambda>c. c \<noteq> CHR ''#'') (strip (last (split_on CHR '','' ''X0, X1''))))
               \<noteq> None) \<or>
         (upper ''MOV'' = ''AND'' \<or> upper ''MOV'' = ''ORR'' \<or> upper ''MOV'' = ''EOR'') \<and>
          CHR ''#'' \<notin> set ''X0, X1'' \<and> length (split_on CHR '','' ''X0, X1'') = 3"
    by (simp add: upper_def upper_char_def)
  from execute_narrative_empty_iff [of Emulator_init "''MOV''" "''X0, X1''", THEN conjunct1] d
  have 4: "snd (execute Emulator_init ''MOV'' ''X0, X1'') \<noteq> ''''"
    by blast
  from 1 2 3 4 show ?thesis by blast
qed

text \<open>
  Claim C8, as stated, promises the empty narrative for every malformed combination.
  \<open>get_reg\<close> reads a name that is no register as 0 (the source says so in a comment),
  and \<open>execute\<close> does not check its operands: \<open>ADD\<close> with the operands
  \<open>X0, foo, bar\<close> writes 0 to \<open>X0\<close> and returns a narrative.
\<close>

theorem execute_unknown_register_counterexample:
  "execute Emulator_init ''ADD'' ''X0, foo, bar'' =
     (set_reg Emulator_init ''X0'' 0, ''; X0 = foo + bar = 0x0 + 0x0 = 0x0'') \<and>
   snd (execute Emulator_init ''ADD'' ''X0, foo, bar'') \<noteq> ''''"
proof -
  have g: "get_reg Emulator_init ''foo'' = 0 \<and> get_reg Emulator_init ''bar'' = 0"
    by (simp add: get_reg_def startswith_def upper_def upper_char_def)
  have "execute_try Emulator_init ''ADD'' ''X0, foo, bar'' =
          exec_arith_reg Emulator_init (+) ''+'' [''X0'', ''foo'', ''bar'']"
    by (simp add: execute_try_def strip_def is_space_def upper_def upper_char_def)
  then have "execute Emulator_init ''ADD'' ''X0, foo, bar'' =
     (set_reg Emulator_init ''X0'' 0, ''; X0 = foo + bar = 0x0 + 0x0 = 0x0'')"
    by (simp add: execute_def exec_arith_reg_def g fmt_hex_def)
  then show ?thesis by simp
qed

section \<open>Properties of locks that exceed the field width\<close>

lemma apply_locks_out_mono:
  "set out \<subseteq> set (fst (apply_locks flds combo_map locks (out, val)))"
proof (induction flds arbitrary: out val)
  case Nil
  then show ?case by simp
next
  case (Cons p flds)
  obtain f s w where p: "p = (f, (s, w))" by (cases p) auto
  show ?case
  proof (cases "\<not> dict_has combo_map f \<and> dict_has locks f")
    case True
    let ?out = "if the (map_of locks f) \<ge> push_bit w 1
                then out @ [Warning_lock_width f (the (map_of locks f))] else out"
    have "set out \<subseteq> set ?out" by auto
    also have "\<dots> \<subseteq> set (fst (apply_locks flds combo_map locks
                  (?out, write_window val s w (the (map_of locks f)))))"
      by (rule Cons.IH)
    finally show ?thesis using True by (simp add: p Let_def)
  next
    case False
    then show ?thesis using Cons.IH [of out val] by (auto simp: p)
  qed
qed

lemma apply_locks_warning:
  "(fname, (start, width)) \<in> set flds \<Longrightarrow> \<not> dict_has combo_map fname \<Longrightarrow>
   map_of locks fname = Some v \<Longrightarrow> v \<ge> 2 ^ width \<Longrightarrow>
   Warning_lock_width fname v \<in> set (fst (apply_locks flds combo_map locks (out, val)))"
proof (induction flds arbitrary: out val)
  case Nil
  then show ?case by simp
next
  case (Cons p flds)
  obtain f s w where p: "p = (f, (s, w))" by (cases p) auto
  show ?case
  proof (cases "p = (fname, (start, width))")
    case True
    let ?out = "out @ [Warning_lock_width fname v]"
    have "Warning_lock_width fname v \<in> set ?out" by simp
    then have "Warning_lock_width fname v \<in>
                 set (fst (apply_locks flds combo_map locks (?out, write_window val start width v)))"
      using apply_locks_out_mono by blast
    then show ?thesis
      using True Cons.prems by (simp add: dict_has_def Let_def)
  next
    case False
    with Cons.prems have "(fname, (start, width)) \<in> set flds" by simp
    from Cons.IH [OF this Cons.prems(2-4)] show ?thesis
      by (simp add: p Let_def)
  qed
qed

lemma apply_locks_field:
  assumes "distinct (map fst flds)"
    and "(fname, (start, width)) \<in> set flds"
    and "\<not> dict_has combo_map fname" and "map_of locks fname = Some v"
    and "\<forall>(f, s, w) \<in> set flds. f \<noteq> fname \<longrightarrow> s + w \<le> start \<or> start + width \<le> s"
    and "i < width"
  shows "bit (snd (apply_locks flds combo_map locks (out, val))) (start + i) = bit v i"
  using assms(1,2,5)
proof (induction flds arbitrary: out val)
  case Nil
  then show ?case by simp
next
  case (Cons p flds)
  obtain f s w where p: "p = (f, (s, w))" by (cases p) auto
  show ?case
  proof (cases "f = fname")
    case True
    with Cons.prems p have sw: "s = start" "w = width"
      by (auto simp: image_iff) 
    from Cons.prems True p have notin: "fname \<notin> fst ` set flds" by auto
    have "bit (snd (apply_locks flds combo_map locks (o', write_window val start width v)))
            (start + i) = bit (write_window val start width v) (start + i)" for o'
    proof (rule apply_locks_frame)
      fix f' s' w'
      assume "(f', (s', w')) \<in> set flds"
      with notin Cons.prems(3) have "s' + w' \<le> start \<or> start + width \<le> s'"
        by (force simp: image_iff)
      with \<open>i < width\<close> show "\<not> (s' \<le> start + i \<and> start + i < s' + w')" by auto
    qed
    then show ?thesis
      using True assms(3,4,6) by (simp add: p sw dict_has_def Let_def write_window_bit)
  next
    case False
    with Cons.prems p have mem: "(fname, (start, width)) \<in> set flds" by auto
    from Cons.prems have d: "distinct (map fst flds)" by simp
    from Cons.prems have dis: "\<forall>(f, s, w) \<in> set flds.
           f \<noteq> fname \<longrightarrow> s + w \<le> start \<or> start + width \<le> s" by simp
    note IH = Cons.IH [OF d mem dis]
    show ?thesis by (simp add: p IH Let_def)
  qed
qed

lemma and_low_mask: "(v::int) AND (push_bit width 1 - 1) = v mod 2 ^ width"
  by (simp add: take_bit_eq_mod flip: take_bit_eq_mask mask_eq_exp_minus_1)

lemma and_low_mask': "(v::int) AND (2 ^ width - 1) = v mod 2 ^ width"
  by (simp add: take_bit_eq_mod flip: take_bit_eq_mask mask_eq_exp_minus_1)

lemma build_domains_locked:
  assumes "map_of flds fname = Some (start, width)" and "map_of locks fname = Some v"
    and "build_domains flds vary locks step (out, domains, order) = (out', Inr (domains', order'))"
    and "length domains = length order"
    and "\<forall>(f, d) \<in> set (zip order domains). f = fname \<longrightarrow> d = [v mod 2 ^ width]"
  shows "length domains' = length order' \<and>
         (\<forall>(f, d) \<in> set (zip order' domains'). f = fname \<longrightarrow> d = [v mod 2 ^ width]) \<and>
         set out \<subseteq> set out' \<and>
         (fname \<in> set order \<union> set vary \<longrightarrow> fname \<in> set order') \<and>
         (fname \<in> set vary \<and> v \<ge> 2 ^ width \<longrightarrow> Warning_lock_range fname v width \<in> set out')"
  using assms(3-5)
proof (induction vary arbitrary: out domains order)
  case Nil
  then show ?case by auto
next
  case (Cons f vary)
  show ?case
  proof (cases "map_of flds f")
    case None
    with assms(1) have ne: "f \<noteq> fname" by auto
    from Cons.prems(1) None
    have b: "build_domains flds vary locks step (out, domains, order) = (out', Inr (domains', order'))"
      by simp
    from Cons.IH [OF b Cons.prems(2,3)] ne show ?thesis by auto
  next
    case (Some win)
    obtain s w where win: "win = (s, w)" by (cases win)
    show ?thesis
    proof (cases "dict_has locks f")
      case True
      let ?lv = "the (map_of locks f)"
      let ?out = "if ?lv \<ge> push_bit w 1 then out @ [Warning_lock_range f ?lv w] else out"
      let ?dom = "domains @ [[?lv AND (push_bit w 1 - 1)]]"
      let ?ord = "order @ [f]"
      from Cons.prems(1) Some win True
      have b: "build_domains flds vary locks step (?out, ?dom, ?ord) = (out', Inr (domains', order'))"
        by (simp add: Let_def)
      have len: "length ?dom = length ?ord"
        using Cons.prems(2) by simp
      have inv: "\<forall>(g, d) \<in> set (zip ?ord ?dom). g = fname \<longrightarrow> d = [v mod 2 ^ width]"
        using Cons.prems(2,3) assms(1,2) Some win
        by (auto simp: and_low_mask')
      from Cons.IH [OF b len inv]
      have r: "length domains' = length order'"
        "\<forall>(f, d) \<in> set (zip order' domains'). f = fname \<longrightarrow> d = [v mod 2 ^ width]"
        "set ?out \<subseteq> set out'"
        "fname \<in> set ?ord \<union> set vary \<longrightarrow> fname \<in> set order'"
        "fname \<in> set vary \<and> v \<ge> 2 ^ width \<longrightarrow> Warning_lock_range fname v width \<in> set out'"
        by blast+
      have o: "set out \<subseteq> set out'"
        using r(3) by (auto split: if_splits)
      have w: "Warning_lock_range fname v width \<in> set out'" if "f = fname" "v \<ge> 2 ^ width"
      proof -
        from that assms(1,2) Some win have "Warning_lock_range fname v width \<in> set ?out"
          by simp
        with r(3) show ?thesis by blast
      qed
      from r(1,2,4,5) o w show ?thesis by auto
    next
      case False
      with assms(2) have ne: "f \<noteq> fname" by (auto simp: dict_has_def)
      let ?step = "if push_bit w (1::int) > 0
                   then min (if w \<le> 2 then 1 else step) (push_bit w 1) else 1"
      from Cons.prems(1) Some win False
      obtain dm where dm: "py_range (push_bit w 1) ?step = Inr dm"
        and b: "build_domains flds vary locks step (out, domains @ [dm], order @ [f]) =
                  (out', Inr (domains', order'))"
        by (cases "py_range (push_bit w 1) ?step") (auto simp: Let_def)
      have len: "length (domains @ [dm]) = length (order @ [f])"
        using Cons.prems(2) by simp
      have inv: "\<forall>(g, d) \<in> set (zip (order @ [f]) (domains @ [dm])).
                   g = fname \<longrightarrow> d = [v mod 2 ^ width]"
        using Cons.prems(2,3) ne by auto
      from Cons.IH [OF b len inv] ne show ?thesis by auto
    qed
  qed
qed

lemma fold_dict_set_Some:
  "map_of (fold (\<lambda>(k, v) d. dict_set d k v) ps d) k = Some x \<Longrightarrow>
   (k, x) \<in> set ps \<or> map_of d k = Some x"
proof (induction ps arbitrary: d)
  case Nil
  then show ?case by simp
next
  case (Cons p ps)
  obtain k' v' where p: "p = (k', v')" by (cases p)
  from Cons.prems have "map_of (fold (\<lambda>(k, v) d. dict_set d k v) ps (dict_set d k' v')) k = Some x"
    by (simp add: p)
  from Cons.IH [OF this] show ?case
    by (auto simp: p map_of_dict_set split: if_splits)
qed

lemma fold_dict_set_dom:
  "k \<in> fst ` set ps \<or> map_of d k \<noteq> None \<Longrightarrow>
   map_of (fold (\<lambda>(k, v) d. dict_set d k v) ps d) k \<noteq> None"
proof (induction ps arbitrary: d)
  case Nil
  then show ?case by simp
next
  case (Cons p ps)
  obtain k' v' where p: "p = (k', v')" by (cases p)
  from Cons.prems have "k \<in> fst ` set ps \<or> map_of (dict_set d k' v') k \<noteq> None"
    by (auto simp: p map_of_dict_set)
  from Cons.IH [OF this] show ?case
    by (simp add: p)
qed

lemma iterate_field_space_locked:
  assumes f: "map_of flds fname = Some (start, width)" and l: "map_of locks fname = Some v"
    and "fname \<in> set vary_fields"
    and it: "iterate_field_space flds vary_fields locks step = (out, Inr combos)"
  shows "(v \<ge> 2 ^ width \<longrightarrow> Warning_lock_range fname v width \<in> set out) \<and>
         (\<forall>combo_map \<in> set combos. map_of combo_map fname = Some (v mod 2 ^ width))"
proof -
  obtain out1 r where b: "build_domains flds vary_fields locks step ([], [], []) = (out1, r)"
    by (cases "build_domains flds vary_fields locks step ([], [], [])")
  from it b obtain domains order where r: "r = Inr (domains, order)"
    by (cases r) (auto simp: iterate_field_space_def)
  from build_domains_locked [OF f l b [unfolded r]] \<open>fname \<in> set vary_fields\<close>
  have len: "length domains = length order"
    and inv: "\<forall>(g, d) \<in> set (zip order domains). g = fname \<longrightarrow> d = [v mod 2 ^ width]"
    and mem: "fname \<in> set order"
    and wrn: "v \<ge> 2 ^ width \<longrightarrow> Warning_lock_range fname v width \<in> set out1"
    by auto
  from mem len have ne: "domains \<noteq> []" by auto
  from it b r ne \<open>fname \<in> set vary_fields\<close>
  have out: "out = out1"
    and combos: "combos = map (\<lambda>combo. dict_of_pairs (zip order combo)) (product_lists domains)"
    by (auto simp: iterate_field_space_def split: if_splits)
  have "map_of (dict_of_pairs (zip order combo)) fname = Some (v mod 2 ^ width)"
    if c: "combo \<in> set (product_lists domains)" for combo
  proof -
    from c have clen: "length combo = length domains"
      by (rule in_set_product_lists_length)
    from c have all: "list_all2 (\<lambda>x ys. x \<in> set ys) combo domains"
      by (simp add: product_lists_set)
    have "fname \<in> fst ` set (zip order combo)"
      using mem clen len by (simp add: map_fst_zip flip: set_map)
    then have "map_of (dict_of_pairs (zip order combo)) fname \<noteq> None"
      unfolding dict_of_pairs_def by (intro fold_dict_set_dom) simp
    then obtain x where x: "map_of (dict_of_pairs (zip order combo)) fname = Some x"
      by auto
    then have "(fname, x) \<in> set (zip order combo)"
      unfolding dict_of_pairs_def by (auto dest: fold_dict_set_Some)
    then obtain k where k: "k < length order" "k < length combo" "order ! k = fname" "combo ! k = x"
      by (auto simp: set_zip)
    from all k(2) have "x \<in> set (domains ! k)"
      using k(4) by (auto simp: list_all2_conv_all_nth)
    moreover have "(fname, domains ! k) \<in> set (zip order domains)"
      using k len by (auto simp: set_zip)
    with inv have "domains ! k = [v mod 2 ^ width]" by auto
    ultimately show ?thesis using x by simp
  qed
  with wrn out combos show ?thesis by auto
qed

lemma extract_field_eq:
  "(\<And>i. i < width \<Longrightarrow> bit val (start + i) = bit v i) \<Longrightarrow>
   drop_bit start val AND (2 ^ width - 1) = (v::int) mod 2 ^ width"
proof -
  assume a: "\<And>i. i < width \<Longrightarrow> bit val (start + i) = bit v i"
  have "take_bit width (drop_bit start val) = take_bit width v"
    by (rule bit_eqI) (auto simp: bit_simps a)
  then show ?thesis
    by (simp add: take_bit_eq_mod flip: take_bit_eq_mask mask_eq_exp_minus_1)
qed

text \<open>
  What the code does with a lock whose raw value is at least \<open>2^width\<close>: it keeps the
  low \<open>width\<close> bits, and prints a warning. Where the field is varied, every yielded
  map gives the field the raw value modulo \<open>2^width\<close>; where it is not in the varied
  map, the field names being distinct and no other field's window overlapping this one,
  the field read back from the assembled value is the raw value modulo \<open>2^width\<close>.
\<close>

lemma lock_exceeding_width_masked:
  assumes "map_of flds fname = Some (start, width)"
    and "map_of locks fname = Some v"
    and "v \<ge> 2 ^ width"
  shows "(fname \<in> set vary_fields \<and>
          iterate_field_space flds vary_fields locks step = (out, Inr combos) \<longrightarrow>
            Warning_lock_range fname v width \<in> set out \<and>
            (\<forall>combo_map \<in> set combos. map_of combo_map fname = Some (v mod 2 ^ width))) \<and>
         (spec_fields spec = flds \<and> \<not> dict_has combo_map fname \<and> distinct (map fst flds) \<and>
          (\<forall>(f, s, w) \<in> set flds. f \<noteq> fname \<longrightarrow> s + w \<le> start \<or> start + width \<le> s) \<longrightarrow>
            Warning_lock_width fname v \<in> set (fst (assemble_value spec combo_map locks)) \<and>
            drop_bit start (snd (assemble_value spec combo_map locks)) AND (2 ^ width - 1) =
              v mod 2 ^ width)"
proof (intro conjI impI)
  assume a: "fname \<in> set vary_fields \<and>
             iterate_field_space flds vary_fields locks step = (out, Inr combos)"
  from iterate_field_space_locked [OF assms(1,2), of vary_fields step out combos] a assms(3)
  show "Warning_lock_range fname v width \<in> set out"
    and "\<forall>combo_map \<in> set combos. map_of combo_map fname = Some (v mod 2 ^ width)"
    by blast+
next
  assume a: "spec_fields spec = flds \<and> \<not> dict_has combo_map fname \<and> distinct (map fst flds) \<and>
     (\<forall>(f, s, w) \<in> set flds. f \<noteq> fname \<longrightarrow> s + w \<le> start \<or> start + width \<le> s)"
  from assms(1) have mem: "(fname, (start, width)) \<in> set flds"
    by (rule map_of_SomeD)
  from a have nc: "\<not> dict_has combo_map fname" and d: "distinct (map fst flds)"
    and dis: "\<forall>(f, s, w) \<in> set flds. f \<noteq> fname \<longrightarrow> s + w \<le> start \<or> start + width \<le> s"
    and sp: "spec_fields spec = flds"
    by blast+
  show "Warning_lock_width fname v \<in> set (fst (assemble_value spec combo_map locks))"
    unfolding assemble_value_def sp
    by (rule apply_locks_warning [OF mem nc assms(2,3)])
  show "drop_bit start (snd (assemble_value spec combo_map locks)) AND (2 ^ width - 1) =
          v mod 2 ^ width"
    unfolding assemble_value_def sp
    by (rule extract_field_eq) (rule apply_locks_field [OF d mem nc assms(2) dis])
qed

lemma lock_exceeding_width_masked_example:
  "Warning_lock_range ''Rd'' 33 5 \<in>
     set (fst (iterate_field_space reg_fields [''Rd''] [(''Rd'', 33)] 4)) \<and>
   map_of [(''Rd'', 1 :: int)] ''Rd'' = Some (33 mod 2 ^ 5) \<and>
   Warning_lock_width ''Rd'' 33 \<in> set (fst (assemble_value ADD_spec [] [(''Rd'', 33)])) \<and>
   drop_bit 0 (snd (assemble_value ADD_spec [] [(''Rd'', 33)])) AND (2 ^ 5 - 1) = 33 mod 2 ^ 5"
proof -
  have f: "map_of reg_fields ''Rd'' = Some (0, 5)"
    by (simp add: reg_fields_def)
  have l: "map_of [(''Rd'', 33 :: int)] ''Rd'' = Some 33"
    by simp
  have v: "(33 :: int) \<ge> 2 ^ 5"
    by simp
  have it: "''Rd'' \<in> set [''Rd''] \<and>
            iterate_field_space reg_fields [''Rd''] [(''Rd'', 33)] 4 =
              ([Warning_lock_range ''Rd'' 33 5], Inr [[(''Rd'', 1)]])"
    by code_simp
  have a: "spec_fields ADD_spec = reg_fields \<and> \<not> dict_has [] ''Rd'' \<and>
           distinct (map fst reg_fields) \<and>
           (\<forall>(f, s, w) \<in> set reg_fields. f \<noteq> ''Rd'' \<longrightarrow> s + w \<le> 0 \<or> 0 + 5 \<le> s)"
    by (simp add: ADD_spec_def reg_fields_def dict_has_def)
  note t = lock_exceeding_width_masked [OF f l v, of "[''Rd'']" 4 "[Warning_lock_range ''Rd'' 33 5]"
         "[[(''Rd'', 1)]]" ADD_spec "[]"]
  from t it have 1: "Warning_lock_range ''Rd'' 33 5 \<in> set [Warning_lock_range ''Rd'' 33 5] \<and>
   (\<forall>combo_map \<in> set [[(''Rd'', 1 :: int)]]. map_of combo_map ''Rd'' = Some (33 mod 2 ^ 5))"
    by (rule conjunct1 [THEN mp])
  from t a have 2: "Warning_lock_width ''Rd'' 33 \<in> set (fst (assemble_value ADD_spec [] [(''Rd'', 33)])) \<and>
   drop_bit 0 (snd (assemble_value ADD_spec [] [(''Rd'', 33)])) AND (2 ^ 5 - 1) = 33 mod 2 ^ 5"
    by (rule conjunct2 [THEN mp])
  from 1 2 it show ?thesis by simp
qed

text \<open>
  Claim C9 on the code. The claim, the specification and both warnings of the code
  (\<open>Clamping.\<close>) say that the raw value is clamped into the field's range. The lock
  \<open>Rd = 33\<close> on the 5-bit field \<open>Rd\<close> of \<open>ADD\<close> is used as 1, in the enumeration
  domain and in the assembled value, where clamping into \<open>[0, 31]\<close> gives 31.
\<close>

theorem lock_exceeding_width_not_clamped:
  "iterate_field_space reg_fields [''Rd''] [(''Rd'', 33)] 4 =
     ([Warning_lock_range ''Rd'' 33 5], Inr [[(''Rd'', 1)]]) \<and>
   assemble_value ADD_spec [] [(''Rd'', 33)] = ([Warning_lock_width ''Rd'' 33], 0x0B000001) \<and>
   clamped_into_range 33 5 = 31 \<and>
   drop_bit 0 (snd (assemble_value ADD_spec [] [(''Rd'', 33)])) AND (2 ^ 5 - 1) \<noteq>
     clamped_into_range 33 5"
proof -
  have it: "iterate_field_space reg_fields [''Rd''] [(''Rd'', 33)] 4 =
              ([Warning_lock_range ''Rd'' 33 5], Inr [[(''Rd'', 1)]])"
    by code_simp
  have av: "assemble_value ADD_spec [] [(''Rd'', 33)] = ([Warning_lock_width ''Rd'' 33], 0x0B000001)"
    by code_simp
  have cl: "clamped_into_range 33 5 = 31"
    by (simp add: clamped_into_range_def)
  have "drop_bit 0 (0x0B000001 :: int) AND (2 ^ 5 - 1) = 1"
    by simp
  with it av cl show ?thesis by simp
qed

section \<open>Properties of the assembler\<close>

lemma bit_small_int: "0 \<le> (x::int) \<Longrightarrow> x < 2 ^ k \<Longrightarrow> bit x n \<Longrightarrow> n < k"
proof (rule ccontr)
  assume x: "0 \<le> x" "x < 2 ^ k" and b: "bit x n" and "\<not> n < k"
  then have "k \<le> n" by simp
  then have "(2::int) ^ k \<le> 2 ^ n" by simp
  with x have "x < 2 ^ n" by linarith
  with x have "x div 2 ^ n = 0" by simp
  with b show False by (simp add: bit_iff_odd)
qed

lemma bit_orr_base: "bit (0x2A000000 :: int) n \<longleftrightarrow> n = 25 \<or> n = 27 \<or> n = 29"
proof -
  have "(0x2A000000 :: int) = push_bit 25 1 OR push_bit 27 1 OR push_bit 29 1"
    by simp
  then show ?thesis
    by (simp only: bit_or_iff bit_push_bit_iff bit_1_iff) auto
qed

lemma bit_31: "bit (31 :: int) n \<longleftrightarrow> n < 5"
proof -
  have "(31 :: int) = mask 5" by (simp add: mask_eq_exp_minus_1)
  then show ?thesis by (simp only: bit_mask_iff) simp
qed

lemma bit_orr_base_64: "bit (0xAA000000 :: int) n \<longleftrightarrow> n = 25 \<or> n = 27 \<or> n = 29 \<or> n = 31"
proof -
  have "(0xAA000000 :: int) = push_bit 25 1 OR push_bit 27 1 OR push_bit 29 1 OR push_bit 31 1"
    by simp
  then show ?thesis
    by (simp only: bit_or_iff bit_push_bit_iff bit_1_iff) auto
qed

lemma mov_reg_encoding_eq:
  assumes "0 \<le> rd" "rd < 32" "0 \<le> rm" "rm < 32" "sf = 0 \<or> sf = (1::int)"
  shows "(if sf \<noteq> 0 then 0xAA000000 else 0x2A000000) OR push_bit 16 rm OR push_bit 5 31 OR rd =
         write_window (write_window (write_window (write_window 0x2A000000 0 5 rd) 5 5 31) 16 5 rm)
           31 1 sf"
proof (rule bit_eqI)
  fix n :: nat
  have rd: "\<not> bit rd k" if "5 \<le> k" for k
    using bit_small_int [of rd 5 k] assms(1,2) that by auto
  have rm: "\<not> bit rm k" if "5 \<le> k" for k
    using bit_small_int [of rm 5 k] assms(3,4) that by auto
  let ?b = "if sf \<noteq> 0 then 0xAA000000 else 0x2A000000 :: int"
  let ?l = "?b OR push_bit 16 rm OR push_bit 5 31 OR rd"
  let ?r = "write_window (write_window (write_window (write_window 0x2A000000 0 5 rd) 5 5 31)
              16 5 rm) 31 1 sf"
  have b: "bit ?b n \<longleftrightarrow> n = 25 \<or> n = 27 \<or> n = 29 \<or> (sf = 1 \<and> n = 31)"
    using assms(5) by (auto simp: bit_orr_base bit_orr_base_64)
  have l: "bit ?l n \<longleftrightarrow> (n = 25 \<or> n = 27 \<or> n = 29 \<or> (sf = 1 \<and> n = 31)) \<or>
             (16 \<le> n \<and> bit rm (n - 16)) \<or> (5 \<le> n \<and> n - 5 < 5) \<or> bit rd n"
    by (simp only: bit_or_iff bit_push_bit_iff b bit_31) simp
  have r: "bit ?r n \<longleftrightarrow>
             (if 31 \<le> n \<and> n < 31 + 1 then bit sf (n - 31)
              else if 16 \<le> n \<and> n < 16 + 5 then bit rm (n - 16)
              else if 5 \<le> n \<and> n < 5 + 5 then bit (31::int) (n - 5)
              else if 0 \<le> n \<and> n < 0 + 5 then bit rd (n - 0)
              else bit (0x2A000000 :: int) n)"
    by (simp only: write_window_bit)
  have sf: "bit sf k \<longleftrightarrow> sf = 1 \<and> k = 0" for k
    using assms(5) by (auto simp: bit_1_iff)
  consider "n < 5" | "5 \<le> n \<and> n < 10" | "10 \<le> n \<and> n < 16" | "16 \<le> n \<and> n < 21"
    | "21 \<le> n \<and> n < 31" | "n = 31" | "31 < n"
    by linarith
  then show "bit ?l n = bit ?r n"
  proof cases
    case 1
    then show ?thesis unfolding l r by (auto simp: bit_orr_base)
  next
    case 2
    then have "\<not> bit rd n" by (intro rd) simp
    with 2 show ?thesis unfolding l r by (auto simp: bit_31)
  next
    case 3
    then have "\<not> bit rd n" by (intro rd) simp
    with 3 show ?thesis unfolding l r by (auto simp: bit_orr_base)
  next
    case 4
    then have "\<not> bit rd n" by (intro rd) simp
    with 4 show ?thesis unfolding l r by auto
  next
    case 5
    then have "\<not> bit rd n" "\<not> bit rm (n - 16)" by (intro rd rm; linarith)+
    with 5 show ?thesis unfolding l r by (auto simp: bit_orr_base)
  next
    case 6
    then have "\<not> bit rd n" "\<not> bit rm (n - 16)" by (intro rd rm; linarith)+
    with 6 show ?thesis unfolding l r by (auto simp: sf)
  next
    case 7
    then have "\<not> bit rd n" "\<not> bit rm (n - 16)" by (intro rd rm; linarith)+
    with 7 show ?thesis unfolding l r by (auto simp: bit_orr_base)
  qed
qed

lemma assemble_orr:
  "snd (assemble_value ORR_spec [(''Rd'', rd), (''Rn'', 31), (''Rm'', rm), (''sf'', sf)] []) =
   write_window (write_window (write_window (write_window 0x2A000000 0 5 rd) 5 5 31) 16 5 rm)
     31 1 sf"
  by (simp add: assemble_value_def ORR_spec_def reg_fields_def dict_has_def)

text \<open>
  Claim C5, as amended. Encoding the text \<open>MOV X0, X1\<close> gives \<open>0xAA0103E0\<close>, the value
  that \<open>assemble_value\<close> builds from the \<open>ORR\<close> descriptor with \<open>sf = 1\<close>,
  \<open>Rm = 1\<close>, \<open>Rn = 31\<close> (the zero register) and \<open>Rd = 0\<close>; and every encoding that
  \<open>_encode_mov_reg\<close> produces for register numbers below 32 is the \<open>ORR\<close> descriptor
  assembled with \<open>Rn = 31\<close>: a move between registers is a bitwise OR with the zero
  register, never an opcode of its own.
\<close>

theorem mov_register_is_orr_with_zero_register:
  "asm_to_hex ''MOV X0, X1'' = Inr 0xAA0103E0 \<and>
   snd (assemble_value ORR_spec [(''Rd'', 0), (''Rn'', 31), (''Rm'', 1), (''sf'', 1)] []) =
     0xAA0103E0 \<and>
   (parse_register rd_str = Inr (sf_d, rd) \<and> parse_register rm_str = Inr (sf_m, rm) \<and>
    0 \<le> rd \<and> rd < 32 \<and> 0 \<le> rm \<and> rm < 32 \<and>
    encode_mov_reg [rd_str, rm_str] = Inr (Inr encoding) \<longrightarrow>
      encoding =
        snd (assemble_value ORR_spec
               [(''Rd'', rd), (''Rn'', 31), (''Rm'', rm),
                (''sf'', if startswith rd_str ''X'' \<or> rd_str = ''SP'' \<or>
                            startswith rm_str ''X'' \<or> rm_str = ''SP'' then 1 else 0)] []))"
proof (intro conjI impI)
  show "asm_to_hex ''MOV X0, X1'' = Inr 0xAA0103E0"
    by code_simp
  show "snd (assemble_value ORR_spec [(''Rd'', 0), (''Rn'', 31), (''Rm'', 1), (''sf'', 1)] []) =
          0xAA0103E0"
    by code_simp
next
  let ?sf = "if startswith rd_str ''X'' \<or> rd_str = ''SP'' \<or>
                startswith rm_str ''X'' \<or> rm_str = ''SP'' then 1 else 0 :: int"
  assume a: "parse_register rd_str = Inr (sf_d, rd) \<and> parse_register rm_str = Inr (sf_m, rm) \<and>
    0 \<le> rd \<and> rd < 32 \<and> 0 \<le> rm \<and> rm < 32 \<and>
    encode_mov_reg [rd_str, rm_str] = Inr (Inr encoding)"
  then have "encoding = (if ?sf \<noteq> 0 then 0xAA000000 else 0x2A000000) OR push_bit 16 rm OR
                          push_bit 5 31 OR rd"
    by (auto simp: encode_mov_reg_def format_result_def Let_def split: if_splits)
  also have "\<dots> = write_window (write_window (write_window (write_window 0x2A000000 0 5 rd)
                       5 5 31) 16 5 rm) 31 1 ?sf"
    using a by (intro mov_reg_encoding_eq) auto
  finally show "encoding = snd (assemble_value ORR_spec
               [(''Rd'', rd), (''Rn'', 31), (''Rm'', rm), (''sf'', ?sf)] [])"
    by (simp only: assemble_orr)
qed

theorem mov_register_is_orr_with_zero_register_witness:
  "encode_mov_reg [''X7'', ''X9''] = Inr (Inr 0xAA0903E7) \<and>
   (0xAA0903E7 :: int) =
     snd (assemble_value ORR_spec [(''Rd'', 7), (''Rn'', 31), (''Rm'', 9), (''sf'', 1)] [])"
proof -
  have e: "encode_mov_reg [''X7'', ''X9''] = Inr (Inr 0xAA0903E7)"
    by code_simp
  have p: "parse_register ''X7'' = Inr (1, 7) \<and> parse_register ''X9'' = Inr (1, 9)"
    by code_simp
  have s: "(if startswith ''X7'' ''X'' \<or> ''X7'' = ''SP'' \<or> startswith ''X9'' ''X'' \<or> ''X9'' = ''SP''
            then 1 else 0 :: int) = 1"
    by (simp add: startswith_def)
  from mov_register_is_orr_with_zero_register
         [of "''X7''" 1 7 "''X9''" 1 9 "0xAA0903E7"] e p
  have "(0xAA0903E7 :: int) = snd (assemble_value ORR_spec
               [(''Rd'', 7), (''Rn'', 31), (''Rm'', 9),
                (''sf'', if startswith ''X7'' ''X'' \<or> ''X7'' = ''SP'' \<or>
                            startswith ''X9'' ''X'' \<or> ''X9'' = ''SP'' then 1 else 0)] [])"
    by simp
  with e show ?thesis by (simp only: s)
qed

text \<open>
  Claim C5, as stated, compares with the encoding of the text \<open>ORR X0, XZR, X1\<close>.
  \<open>asm_to_hex\<close> has no pattern for \<open>ORR\<close>: that text gets the error result
  for an unsupported pattern, and no bit pattern.
\<close>

theorem asm_to_hex_orr_text_counterexample:
  "asm_to_hex ''ORR X0, XZR, X1'' = Inl Pattern_not_supported \<and>
   asm_to_hex ''MOV X0, X1'' \<noteq> asm_to_hex ''ORR X0, XZR, X1''"
  by code_simp

text \<open>
  With a decimal immediate the three cases of the add/subtract-immediate rule come out
  as the tests of the repository expect them.
\<close>

lemma asm_to_hex_decimal_immediate:
  "asm_to_hex ''ADD X0, X1, #291'' = Inr 0x91048C20 \<and>
   asm_to_hex ''ADD X0, X1, #12288'' = Inr 0x91400C20 \<and>
   asm_to_hex ''ADD X0, X1, #74565'' = Inl (Invalid_immediate ''ADD'')"
proof -
  have a: "asm_to_hex ''ADD X0, X1, #291'' = Inr 0x91048C20"
    by code_simp
  have b: "asm_to_hex ''ADD X0, X1, #12288'' = Inr 0x91400C20"
    by code_simp
  have n: "upper (strip ''ADD X0, X1, #74565'') \<noteq> ''NOP''"
    by code_simp
  have m: "re_match (add_sub_pattern ''ADD'') (upper (strip ''ADD X0, X1, #74565'')) =
             Some [''X0'', ''X1'', ''74565'']"
    by code_simp
  have p: "py_int 0 ''74565'' = Some 74565"
    by (simp add: py_int_def is_c_space_def digit_value_def)
  have r: "parse_register ''X0'' = Inr (1, 0) \<and> parse_register ''X1'' = Inr (1, 1)"
    by code_simp
  have e: "encode_add_sub_imm ''ADD'' [''X0'', ''X1'', ''74565''] =
             Inr (Inl (Invalid_immediate ''ADD''))"
    using r by (simp add: encode_add_sub_imm_def p)
  have c: "asm_to_hex ''ADD X0, X1, #74565'' = Inl (Invalid_immediate ''ADD'')"
    by (simp only: asm_to_hex_def asm_to_hex_try_def Let_def m e n if_False option.case sum.case)
  from a b c show ?thesis by blast
qed

text \<open>
  Claim C1 on the code. \<open>asm_to_hex\<close> matches its patterns against the upper-cased
  text, in which a hexadecimal immediate starts with \<open>0X\<close>, while the pattern asks for
  a small \<open>x\<close>. The alternative \<open>\d+\<close> then matches the leading \<open>0\<close> alone, and the
  immediate is read as 0: the three texts of the claim all encode as \<open>0x91000020\<close>,
  the third without an error.
\<close>

theorem asm_to_hex_hexadecimal_immediate_read_as_zero:
  "re_match (add_sub_pattern ''ADD'') (upper ''ADD X0, X1, #0x123'') = Some [''X0'', ''X1'', ''0''] \<and>
   asm_to_hex ''ADD X0, X1, #0x123'' = Inr 0x91000020 \<and>
   asm_to_hex ''ADD X0, X1, #0x3000'' = Inr 0x91000020 \<and>
   asm_to_hex ''ADD X0, X1, #0x12345'' = Inr 0x91000020"
  by code_simp

end
